theory Spec2Isabelle
  imports Main "HOL-Library.Word"
begin

section \<open>JavaScript values used by App.tsx\<close>

text \<open>
  A JavaScript string is a sequence of UTF-16 code units; \<open>charCodeAt\<close> reads one
  unit, \<open>length\<close> counts them.
\<close>

type_synonym jsstring = "16 word list"

definition js_lit :: "string \<Rightarrow> jsstring" where
  "js_lit cs = map of_char cs"

text \<open>
  \<open>String(n)\<close> of a non-negative integer, as a template literal \<open>${n}\<close> produces it:
  the decimal digits, most significant first.
\<close>

fun numToString :: "nat \<Rightarrow> jsstring" where
  "numToString n =
     (if n < 10 then [of_nat (48 + n)]
      else numToString (n div 10) @ [of_nat (48 + n mod 10)])"

declare numToString.simps [simp del]

text \<open>
  \<open>String.prototype.trim\<close> removes WhiteSpace and LineTerminator code units from both
  ends: TAB, VT, FF, SP, NBSP, ZWNBSP, the Space_Separator category, LF, CR, LS and PS.
\<close>

definition isWhiteSpace :: "16 word \<Rightarrow> bool" where
  "isWhiteSpace c \<longleftrightarrow>
     c \<in> {0x9, 0xA, 0xB, 0xC, 0xD, 0x20, 0xA0, 0x1680, 0x2028, 0x2029, 0x202F, 0x205F,
          0x3000, 0xFEFF}
     \<or> (0x2000 \<le> c \<and> c \<le> 0x200A)"

definition trim :: "jsstring \<Rightarrow> jsstring" where
  "trim str = rev (dropWhile isWhiteSpace (rev (dropWhile isWhiteSpace str)))"

section \<open>stringToNeonColor\<close>

text \<open>
  A Number is an IEEE 754 double. Every value of the hash is an integer, so the model
  keeps the integer the double stands for, and a sum or a difference of two Numbers is
  the exact result rounded to 53 significant bits, ties to the even significand:
  below \<open>2 ^ 53\<close> nothing is lost, from there on \<open>expo\<close> counts the low bits that
  do not fit.
\<close>

fun expo :: "nat \<Rightarrow> nat" where
  "expo n = (if n < 2 ^ 53 then 0 else Suc (expo (n div 2)))"

declare expo.simps [simp del]

definition roundNat :: "nat \<Rightarrow> nat" where
  "roundNat n =
     (let q = 2 ^ expo n; m = n div q; r = n mod q
      in if 2 * r < q then m * q
         else if q < 2 * r then (m + 1) * q
         else if even m then m * q else (m + 1) * q)"

definition roundNumber :: "int \<Rightarrow> int" where
  "roundNumber x = sgn x * int (roundNat (nat \<bar>x\<bar>))"

text \<open>
  \<open>hash << 5\<close> converts \<open>hash\<close> to a 32-bit two's complement integer (its value
  modulo \<open>2 ^ 32\<close>), shifts it and yields a signed 32-bit result. The subtraction and
  the addition around it are on Numbers: they do not wrap, they round. The model has
  no infinity; \<open>hash_of_bound\<close> shows that the hash of a string stays far below the
  largest double.
\<close>

definition shl5 :: "int \<Rightarrow> int" where
  "shl5 h = sint (push_bit 5 (word_of_int h :: 32 word))"

definition hash_step :: "int \<Rightarrow> 16 word \<Rightarrow> int" where
  "hash_step h c = roundNumber (uint c + roundNumber (shl5 h - h))"

definition hash_of :: "jsstring \<Rightarrow> int" where
  "hash_of str = foldl hash_step 0 str"

definition hue :: "jsstring \<Rightarrow> nat" where
  "hue str = nat (\<bar>hash_of str\<bar> mod 360)"

definition stringToNeonColor :: "jsstring \<Rightarrow> jsstring" where
  "stringToNeonColor str =
     js_lit ''hsl('' @ numToString (hue str) @ js_lit '', 100%, 60%)''"

section \<open>Messages and the pending ledger\<close>

text \<open>
  Interface \<open>Message\<close>; the fields \<open>text\<close> and \<open>id\<close> carry a prefix because the
  bare names are taken.
\<close>

record Message =
  msg_text :: jsstring
  senderId :: jsstring
  msg_id :: jsstring
  timestamp :: "int option"

text \<open>Interface \<open>PendingMessage extends Message\<close>; a timer handle is a number.\<close>

record PendingMessage = Message +
  retryCount :: nat
  timeout :: "nat option"

definition MAX_RETRIES :: nat where
  "MAX_RETRIES = 3"

definition RETRY_TIMEOUT :: nat where
  "RETRY_TIMEOUT = 3000"

text \<open>
  The acknowledgment argument is of type \<open>any\<close>: a falsy value (nothing, \<open>null\<close>) or an
  object \<open>{success, error?}\<close>.
\<close>

datatype ackResponse = NoResponse | Response bool "jsstring option"

fun ack_success :: "ackResponse \<Rightarrow> bool" where
  "ack_success NoResponse = False"
| "ack_success (Response ok err) = ok"

fun ack_error :: "ackResponse \<Rightarrow> jsstring option" where
  "ack_error NoResponse = None"
| "ack_error (Response ok err) = err"

text \<open>The lines written by \<open>console.log\<close>, \<open>console.warn\<close> and \<open>console.error\<close>.\<close>

datatype log_entry =
    LogSending jsstring nat
  | LogAckReceived ackResponse
  | LogConfirmed jsstring
  | ErrServer "jsstring option"
  | WarnNoAck jsstring
  | LogRetrying jsstring nat
  | ErrFailed jsstring
  | LogConnected
  | LogDisconnected
  | LogReconnectAttempt nat
  | LogReconnected nat
  | LogSynced nat
  | LogNewMessage jsstring
  | LogDuplicate jsstring

text \<open>
  One \<open>socket.emit('send_message', msgData, callback)\<close>: when it was made, its payload
  and the number of its acknowledgment callback.
\<close>

record emission =
  em_time :: nat
  em_msg :: Message
  em_ack :: nat

text \<open>
  An armed \<open>setTimeout\<close>: the \<open>msgData\<close> and \<open>retryCount\<close> its callback closes over
  and the instant from which it may fire.
\<close>

record timer =
  tm_msg :: Message
  tm_retry :: nat
  tm_due :: nat

section \<open>The state of the component and of its environment\<close>

text \<open>
  The React state (\<open>message\<close> to \<open>isConnected\<close>), the two refs, the module constant
  \<open>MY_USER_ID\<close>, and what the runtime holds for the component: the armed timers, the
  acknowledgment callbacks not yet called, the emissions made, the console and the
  clock in milliseconds. Timer handles are positive, as in a browser.
\<close>

record app_state =
  message :: jsstring
  messages :: "Message list"
  userCount :: int
  isVerified :: bool
  isUnderage :: bool
  isConnected :: bool
  receivedMessageIds :: "jsstring set"
  pendingMessages :: "jsstring \<rightharpoonup> PendingMessage"
  MY_USER_ID :: jsstring
  timers :: "nat \<rightharpoonup> timer"
  timer_count :: nat
  acks :: "nat \<rightharpoonup> (Message \<times> nat)"
  ack_count :: nat
  emitted :: "emission list"
  console :: "log_entry list"
  now :: nat

definition init :: "jsstring \<Rightarrow> bool \<Rightarrow> app_state" where
  "init uid connected =
     \<lparr> message = [], messages = [], userCount = 0, isVerified = False,
       isUnderage = False, isConnected = connected, receivedMessageIds = {},
       pendingMessages = Map.empty, MY_USER_ID = uid, timers = Map.empty,
       timer_count = 0, acks = Map.empty, ack_count = 0, emitted = [],
       console = [], now = 0 \<rparr>"

definition clearTimeout :: "nat \<Rightarrow> app_state \<Rightarrow> app_state" where
  "clearTimeout t s = s\<lparr>timers := (timers s)(t := None)\<rparr>"

definition console_log :: "log_entry \<Rightarrow> app_state \<Rightarrow> app_state" where
  "console_log e s = s\<lparr>console := console s @ [e]\<rparr>"

section \<open>Sending with retries\<close>

definition pending_of :: "Message \<Rightarrow> nat \<Rightarrow> nat \<Rightarrow> PendingMessage" where
  "pending_of msgData rc t =
     \<lparr> msg_text = msg_text msgData, senderId = senderId msgData,
       msg_id = msg_id msgData, timestamp = timestamp msgData,
       retryCount = rc, timeout = Some t \<rparr>"

text \<open>
  \<open>sendMessageWithRetry\<close>: log, emit with an acknowledgment callback, arm a timer of
  \<open>RETRY_TIMEOUT\<close>, store the ledger entry with that timer.
\<close>

definition sendMessageWithRetry :: "Message \<Rightarrow> nat \<Rightarrow> app_state \<Rightarrow> app_state" where
  "sendMessageWithRetry msgData rc s =
     (let k = ack_count s; t = timer_count s + 1 in
      s\<lparr> console := console s @ [LogSending (msg_id msgData) (rc + 1)],
         emitted := emitted s @ [\<lparr>em_time = now s, em_msg = msgData, em_ack = k\<rparr>],
         acks := (acks s)(k \<mapsto> (msgData, rc)),
         ack_count := k + 1,
         timers := (timers s)(t \<mapsto>
           \<lparr>tm_msg = msgData, tm_retry = rc, tm_due = now s + RETRY_TIMEOUT\<rparr>),
         timer_count := t,
         pendingMessages := (pendingMessages s)(msg_id msgData \<mapsto> pending_of msgData rc t) \<rparr>)"

text \<open>\<open>handleMessageFailure\<close>: cancel the entry's timer if there is one, then retry or give up.\<close>

definition handleMessageFailure :: "Message \<Rightarrow> nat \<Rightarrow> app_state \<Rightarrow> app_state" where
  "handleMessageFailure msgData rc s =
     (let s1 = (case pendingMessages s (msg_id msgData) of
                  None \<Rightarrow> s
                | Some pending \<Rightarrow>
                    (case timeout pending of
                       None \<Rightarrow> s
                     | Some t \<Rightarrow> if t \<noteq> 0 then clearTimeout t s else s))
      in if rc < MAX_RETRIES
         then sendMessageWithRetry msgData (rc + 1)
                (console_log (LogRetrying (msg_id msgData) (rc + 1)) s1)
         else (console_log (ErrFailed (msg_id msgData)) s1)
                \<lparr>pendingMessages := (pendingMessages s1)(msg_id msgData := None)\<rparr>)"

text \<open>The acknowledgment callback passed to \<open>socket.emit\<close>.\<close>

definition ackCallback :: "Message \<Rightarrow> nat \<Rightarrow> ackResponse \<Rightarrow> app_state \<Rightarrow> app_state" where
  "ackCallback msgData rc ackResp s =
     (let s1 = console_log (LogAckReceived ackResp) s in
      if ack_success ackResp
      then console_log (LogConfirmed (msg_id msgData))
             (s1\<lparr>pendingMessages := (pendingMessages s1)(msg_id msgData := None)\<rparr>)
      else handleMessageFailure msgData rc (console_log (ErrServer (ack_error ackResp)) s1))"

text \<open>The callback passed to \<open>setTimeout\<close>.\<close>

definition timeoutCallback :: "Message \<Rightarrow> nat \<Rightarrow> app_state \<Rightarrow> app_state" where
  "timeoutCallback msgData rc s =
     (if pendingMessages s (msg_id msgData) \<noteq> None
      then handleMessageFailure msgData rc (console_log (WarnNoAck (msg_id msgData)) s)
      else s)"

text \<open>
  \<open>sendMessage\<close>, the form's submit handler. \<open>dateNow\<close> is what \<open>Date.now()\<close> returns
  and \<open>rnd\<close> what \<open>Math.random().toString(36).substring(7)\<close> returns.
\<close>

definition newMessage :: "nat \<Rightarrow> jsstring \<Rightarrow> app_state \<Rightarrow> Message" where
  "newMessage dateNow rnd s =
     \<lparr> msg_text = message s, senderId = MY_USER_ID s,
       msg_id = numToString dateNow @ js_lit ''-'' @ rnd, timestamp = None \<rparr>"

definition sendMessage :: "nat \<Rightarrow> jsstring \<Rightarrow> app_state \<Rightarrow> app_state" where
  "sendMessage dateNow rnd s =
     (if trim (message s) \<noteq> []
      then (sendMessageWithRetry (newMessage dateNow rnd s) 0 s)\<lparr>message := []\<rparr>
      else s)"

section \<open>Socket event handlers\<close>

definition handleConnect :: "app_state \<Rightarrow> app_state" where
  "handleConnect s = (console_log LogConnected s)\<lparr>isConnected := True\<rparr>"

definition handleDisconnect :: "app_state \<Rightarrow> app_state" where
  "handleDisconnect s = (console_log LogDisconnected s)\<lparr>isConnected := False\<rparr>"

definition handleReconnectAttempt :: "nat \<Rightarrow> app_state \<Rightarrow> app_state" where
  "handleReconnectAttempt attempt s = console_log (LogReconnectAttempt attempt) s"

definition handleReconnect :: "nat \<Rightarrow> app_state \<Rightarrow> app_state" where
  "handleReconnect attemptNumber s =
     (console_log (LogReconnected attemptNumber) s)\<lparr>isConnected := True\<rparr>"

text \<open>
  The callback of \<open>syncedMessages.filter\<close> adds to the set while it filters, in the
  order of the batch: the pair is the set afterwards and the messages kept.
\<close>

fun syncFilter :: "jsstring set \<Rightarrow> Message list \<Rightarrow> jsstring set \<times> Message list" where
  "syncFilter seen [] = (seen, [])"
| "syncFilter seen (msg # rest) =
     (if msg_id msg \<notin> seen
      then (let (seen', kept) = syncFilter (insert (msg_id msg) seen) rest
            in (seen', msg # kept))
      else syncFilter seen rest)"

definition handleSyncMessages :: "Message list \<Rightarrow> app_state \<Rightarrow> app_state" where
  "handleSyncMessages syncedMessages s =
     (let s1 = console_log (LogSynced (length syncedMessages)) s;
          (seen', newMessages) = syncFilter (receivedMessageIds s1) syncedMessages;
          s2 = s1\<lparr>receivedMessageIds := seen'\<rparr>
      in if length newMessages > 0
         then s2\<lparr>messages := messages s2 @ newMessages\<rparr>
         else s2)"

definition handleReceiveMessage :: "Message \<Rightarrow> app_state \<Rightarrow> app_state" where
  "handleReceiveMessage data s =
     (if msg_id data \<notin> receivedMessageIds s
      then console_log (LogNewMessage (msg_id data))
             (s\<lparr> receivedMessageIds := insert (msg_id data) (receivedMessageIds s),
                 messages := messages s @ [data] \<rparr>)
      else console_log (LogDuplicate (msg_id data)) s)"

definition handleUserCount :: "int \<Rightarrow> app_state \<Rightarrow> app_state" where
  "handleUserCount count s = s\<lparr>userCount := count\<rparr>"

definition handleUnderage :: "app_state \<Rightarrow> app_state" where
  "handleUnderage s = s\<lparr>isUnderage := True\<rparr>"

section \<open>The event loop\<close>

text \<open>
  Everything that can happen to the mounted component, one event at a time: the socket
  events it listens to, the relay answering emission number \<open>k\<close>, an armed timer
  firing, time passing, and the user typing, submitting or answering the age gate.
\<close>

datatype event =
    Connect
  | Disconnect
  | ReconnectAttempt nat
  | Reconnect nat
  | SyncMessages "Message list"
  | ReceiveMessage Message
  | UserCount int
  | Ack nat ackResponse
  | TimerFire nat
  | Tick nat
  | Type jsstring
  | Submit nat jsstring
  | ConfirmAge
  | DenyAge

text \<open>
  An acknowledgment callback is called at most once; a timer fires at most once, not
  before its delay has passed, and not after \<open>clearTimeout\<close>. An event that cannot
  happen in a state leaves it as it is.
\<close>

fun step :: "event \<Rightarrow> app_state \<Rightarrow> app_state" where
  "step Connect s = handleConnect s"
| "step Disconnect s = handleDisconnect s"
| "step (ReconnectAttempt n) s = handleReconnectAttempt n s"
| "step (Reconnect n) s = handleReconnect n s"
| "step (SyncMessages batch) s = handleSyncMessages batch s"
| "step (ReceiveMessage data) s = handleReceiveMessage data s"
| "step (UserCount n) s = handleUserCount n s"
| "step (Ack k resp) s =
     (case acks s k of
        None \<Rightarrow> s
      | Some (msgData, rc) \<Rightarrow> ackCallback msgData rc resp (s\<lparr>acks := (acks s)(k := None)\<rparr>))"
| "step (TimerFire t) s =
     (case timers s t of
        None \<Rightarrow> s
      | Some tm \<Rightarrow>
          if tm_due tm \<le> now s
          then timeoutCallback (tm_msg tm) (tm_retry tm) (s\<lparr>timers := (timers s)(t := None)\<rparr>)
          else s)"
| "step (Tick d) s = s\<lparr>now := now s + d\<rparr>"
| "step (Type str) s = s\<lparr>message := str\<rparr>"
| "step (Submit dateNow rnd) s = sendMessage dateNow rnd s"
| "step ConfirmAge s = s\<lparr>isVerified := True\<rparr>"
| "step DenyAge s = handleUnderage s"

fun run :: "event list \<Rightarrow> app_state \<Rightarrow> app_state" where
  "run [] s = s"
| "run (e # es) s = run es (step e s)"

section \<open>What the relay delivered\<close>

text \<open>The messages an event hands to the dedup filter, in order.\<close>

fun delivered :: "event \<Rightarrow> Message list" where
  "delivered (SyncMessages batch) = batch"
| "delivered (ReceiveMessage data) = [data]"
| "delivered e = []"

definition deliveries :: "event list \<Rightarrow> Message list" where
  "deliveries evs = concat (map delivered evs)"

section \<open>Sample sessions\<close>

definition me :: jsstring where
  "me = js_lit ''u1''"

definition m1 :: Message where
  "m1 = \<lparr>msg_text = js_lit ''a'', senderId = js_lit ''u2'', msg_id = js_lit ''x'', timestamp = None\<rparr>"

definition m1' :: Message where
  "m1' = \<lparr>msg_text = js_lit ''a'', senderId = js_lit ''u2'', msg_id = js_lit ''x'', timestamp = Some 7\<rparr>"

definition m2 :: Message where
  "m2 = \<lparr>msg_text = js_lit ''b'', senderId = js_lit ''u3'', msg_id = js_lit ''y'', timestamp = Some 8\<rparr>"

text \<open>A message was submitted, then the connection dropped before any acknowledgment.\<close>

definition outage :: app_state where
  "outage = run [Connect, ConfirmAge, Type (js_lit ''hi''), Submit 5 (js_lit ''ab''), Disconnect] (init me False)"

text \<open>
  The user confirms the age gate, types \<open>hi\<close> and submits it at \<open>Date.now() = 5\<close> with random suffix \<open>ab\<close>;
  no acknowledgment arrives and the timers fire as soon as they are due. In \<open>typed\<close> the text is in the input, in
  \<open>submitted\<close> it was sent once, in \<open>retried\<close> twice, in \<open>exhausted\<close> four times, and in
  \<open>failed\<close> the last timer has fired.
\<close>

definition hi :: Message where
  "hi = \<lparr>msg_text = js_lit ''hi'', senderId = js_lit ''u1'', msg_id = js_lit ''5-ab'', timestamp = None\<rparr>"

definition typed :: app_state where
  "typed = run [Connect, ConfirmAge, Type (js_lit ''hi'')] (init me False)"

definition submitted :: app_state where
  "submitted = run [Connect, ConfirmAge, Type (js_lit ''hi''), Submit 5 (js_lit ''ab'')] (init me False)"

text \<open>
  In the same millisecond the user submits a second text, and \<open>Date.now()\<close> and the
  random suffix come out the same: the new message carries the id of the first.
\<close>

definition twice :: app_state where
  "twice = run [Type (js_lit ''yo''), Submit 5 (js_lit ''ab'')] submitted"

definition retried :: app_state where
  "retried = run [Tick 3000, TimerFire 1] submitted"

definition exhausted :: app_state where
  "exhausted = run [Tick 3000, TimerFire 2, Tick 3000, TimerFire 3] retried"

definition failed :: app_state where
  "failed = run [Tick 3000, TimerFire 4] exhausted"

text \<open>The React state, which is all the render function reads.\<close>

definition rendered :: "app_state \<Rightarrow> jsstring \<times> Message list \<times> int \<times> bool \<times> bool \<times> bool" where
  "rendered s = (message s, messages s, userCount s, isVerified s, isUnderage s, isConnected s)"

text \<open>The relay acknowledges the second emission after the first retry.\<close>

definition confirmed :: app_state where
  "confirmed = step (Ack 1 (Response True None)) retried"

section \<open>The retry cycle of one message\<close>

text \<open>The emissions that carry message id \<open>i\<close>, oldest first.\<close>

definition sent :: "jsstring \<Rightarrow> app_state \<Rightarrow> emission list" where
  "sent i s = filter (\<lambda>e. msg_id (em_msg e) = i) (emitted s)"

text \<open>Consecutive instants are at least \<open>RETRY_TIMEOUT\<close> apart.\<close>

fun spaced :: "nat list \<Rightarrow> bool" where
  "spaced (a # b # ts) = (a + RETRY_TIMEOUT \<le> b \<and> spaced (b # ts))"
| "spaced ts = True"

text \<open>How often the terminal failure of message id \<open>i\<close> was written to the console.\<close>

definition failures :: "jsstring \<Rightarrow> app_state \<Rightarrow> nat" where
  "failures i s = length (filter (\<lambda>l. l = ErrFailed i) (console s))"

text \<open>The armed timers whose callback closes over a message with id \<open>i\<close>.\<close>

definition timers_of :: "jsstring \<Rightarrow> app_state \<Rightarrow> (nat \<rightharpoonup> timer)" where
  "timers_of i s =
     (\<lambda>t. case timers s t of
            None \<Rightarrow> None
          | Some tm \<Rightarrow> if msg_id (tm_msg tm) = i then Some tm else None)"

text \<open>
  Timer handles are handed out in increasing order: no armed timer and no ledger entry
  holds a handle that is still to come, and the timer a ledger entry records, while
  armed, closes over a message with the id of that entry.
\<close>

definition handles_ok :: "app_state \<Rightarrow> bool" where
  "handles_ok s \<longleftrightarrow>
     (\<forall>t. timers s t \<noteq> None \<longrightarrow> t \<le> timer_count s)
     \<and> (\<forall>j p t. pendingMessages s j = Some p \<and> timeout p = Some t \<longrightarrow>
           t \<le> timer_count s
           \<and> (\<forall>tm. timers s t = Some tm \<longrightarrow> msg_id (tm_msg tm) = j))"

text \<open>
  A run in which message id \<open>i\<close> gets no answer: no acknowledgment callback of an
  emission carrying \<open>i\<close> is called, and no later submission produces the id \<open>i\<close> again.
\<close>

fun allowed :: "jsstring \<Rightarrow> event \<Rightarrow> app_state \<Rightarrow> bool" where
  "allowed i (Ack k resp) s =
     (case acks s k of None \<Rightarrow> True | Some (msgData, rc) \<Rightarrow> msg_id msgData \<noteq> i)"
| "allowed i (Submit dateNow rnd) s =
     (trim (message s) = [] \<or> msg_id (newMessage dateNow rnd s) \<noteq> i)"
| "allowed i e s = True"

fun unanswered :: "jsstring \<Rightarrow> event list \<Rightarrow> app_state \<Rightarrow> bool" where
  "unanswered i [] s = True"
| "unanswered i (e # es) s = (allowed i e s \<and> unanswered i es (step e s))"

text \<open>What the state holds about message id \<open>i\<close>.\<close>

definition iview ::
  "jsstring \<Rightarrow> app_state \<Rightarrow> PendingMessage option \<times> (nat \<rightharpoonup> timer) \<times> emission list \<times> nat" where
  "iview i s = (pendingMessages s i, timers_of i s, sent i s, failures i s)"

text \<open>
  The retry cycle of message \<open>m\<close>, seen through \<open>iview\<close>: while the entry is in the
  ledger, \<open>m\<close> was emitted between one and \<open>MAX_RETRIES + 1\<close> times, the entry counts
  the retries, and exactly one timer of \<open>m\<close> is armed, due \<open>RETRY_TIMEOUT\<close> after the
  last emission; once the entry is gone, \<open>m\<close> was emitted \<open>MAX_RETRIES + 1\<close> times,
  the failure was logged once and no timer of \<open>m\<close> is armed.
\<close>

definition retry_view_ok ::
  "Message \<Rightarrow> PendingMessage option \<times> (nat \<rightharpoonup> timer) \<times> emission list \<times> nat \<Rightarrow> bool" where
  "retry_view_ok m v =
     (case v of (entry, tms, es, fails) \<Rightarrow>
        (\<forall>e \<in> set es. em_msg e = m)
        \<and> spaced (map em_time es)
        \<and> (case entry of
             Some p \<Rightarrow>
               es \<noteq> [] \<and> length es \<le> MAX_RETRIES + 1 \<and> fails = 0
               \<and> (case timeout p of
                     None \<Rightarrow> False
                   | Some t \<Rightarrow>
                       p = pending_of m (length es - 1) t
                       \<and> tms = [t \<mapsto> \<lparr>tm_msg = m, tm_retry = length es - 1,
                                      tm_due = em_time (last es) + RETRY_TIMEOUT\<rparr>])
           | None \<Rightarrow> length es = MAX_RETRIES + 1 \<and> fails = 1 \<and> tms = Map.empty))"

text \<open>
  A run in which message id \<open>i\<close> gets no negative answer: every acknowledgment
  callback called for an emission carrying \<open>i\<close> is a positive one, and no submission
  produces the id \<open>i\<close> again.
\<close>

fun benign :: "jsstring \<Rightarrow> event \<Rightarrow> app_state \<Rightarrow> bool" where
  "benign i (Ack k resp) s =
     (case acks s k of
        None \<Rightarrow> True
      | Some (msgData, rc) \<Rightarrow> msg_id msgData \<noteq> i \<or> ack_success resp)"
| "benign i (Submit dateNow rnd) s =
     (trim (message s) = [] \<or> msg_id (newMessage dateNow rnd s) \<noteq> i)"
| "benign i e s = True"

fun all_benign :: "jsstring \<Rightarrow> event list \<Rightarrow> app_state \<Rightarrow> bool" where
  "all_benign i [] s = True"
| "all_benign i (e # es) s = (benign i e s \<and> all_benign i es (step e s))"

section \<open>Unfolding the handlers\<close>

lemmas retry_defs = sendMessageWithRetry_def handleMessageFailure_def ackCallback_def
  timeoutCallback_def sendMessage_def clearTimeout_def console_log_def

lemmas socket_defs = handleConnect_def handleDisconnect_def handleReconnectAttempt_def
  handleReconnect_def handleUserCount_def handleUnderage_def

lemmas eval_defs = init_def me_def retry_defs socket_defs newMessage_def trim_def
  isWhiteSpace_def js_lit_def numToString.simps Let_def pending_of_def MAX_RETRIES_def
  RETRY_TIMEOUT_def handleReceiveMessage_def handleSyncMessages_def deliveries_def

section \<open>trim\<close>

lemma dropWhile_all_iff: "(\<forall>x \<in> set (dropWhile P xs). P x) \<longleftrightarrow> (\<forall>x \<in> set xs. P x)"
  by (induction xs) auto

lemma trim_empty_iff: "trim str = [] \<longleftrightarrow> (\<forall>c \<in> set str. isWhiteSpace c)"
  by (simp add: trim_def dropWhile_eq_Nil_conv dropWhile_all_iff)

section \<open>The timeline changes only through the dedup filter\<close>

lemma sendMessageWithRetry_timeline:
  "messages (sendMessageWithRetry m rc s) = messages s
   \<and> receivedMessageIds (sendMessageWithRetry m rc s) = receivedMessageIds s"
  by (simp add: sendMessageWithRetry_def Let_def)

lemma handleMessageFailure_timeline:
  "messages (handleMessageFailure m rc s) = messages s
   \<and> receivedMessageIds (handleMessageFailure m rc s) = receivedMessageIds s"
  by (simp add: handleMessageFailure_def sendMessageWithRetry_timeline clearTimeout_def
      console_log_def Let_def split: option.splits)

lemma ackCallback_timeline:
  "messages (ackCallback m rc r s) = messages s
   \<and> receivedMessageIds (ackCallback m rc r s) = receivedMessageIds s"
  by (simp add: ackCallback_def handleMessageFailure_timeline console_log_def Let_def)

lemma timeoutCallback_timeline:
  "messages (timeoutCallback m rc s) = messages s
   \<and> receivedMessageIds (timeoutCallback m rc s) = receivedMessageIds s"
  by (simp add: timeoutCallback_def handleMessageFailure_timeline console_log_def)

lemma sendMessage_timeline:
  "messages (sendMessage d r s) = messages s
   \<and> receivedMessageIds (sendMessage d r s) = receivedMessageIds s"
  by (simp add: sendMessage_def sendMessageWithRetry_timeline)

lemma handleReceiveMessage_timeline:
  "messages (handleReceiveMessage data s) = messages s @ snd (syncFilter (receivedMessageIds s) [data])
   \<and> receivedMessageIds (handleReceiveMessage data s) = fst (syncFilter (receivedMessageIds s) [data])"
  by (simp add: handleReceiveMessage_def console_log_def)

lemma handleSyncMessages_timeline:
  "messages (handleSyncMessages batch s) = messages s @ snd (syncFilter (receivedMessageIds s) batch)
   \<and> receivedMessageIds (handleSyncMessages batch s) = fst (syncFilter (receivedMessageIds s) batch)"
  by (simp add: handleSyncMessages_def console_log_def Let_def split: prod.splits)

lemma step_timeline:
  "messages (step e s) = messages s @ snd (syncFilter (receivedMessageIds s) (delivered e))
   \<and> receivedMessageIds (step e s) = fst (syncFilter (receivedMessageIds s) (delivered e))"
proof (cases e)
  case (Ack k resp)
  then show ?thesis by (simp add: ackCallback_timeline split: option.splits)
next
  case (TimerFire t)
  then show ?thesis by (simp add: timeoutCallback_timeline split: option.splits)
qed (simp_all add: socket_defs console_log_def sendMessage_timeline
      handleReceiveMessage_timeline handleSyncMessages_timeline)

lemma syncFilter_append:
  "syncFilter seen (xs @ ys) =
     (fst (syncFilter (fst (syncFilter seen xs)) ys),
      snd (syncFilter seen xs) @ snd (syncFilter (fst (syncFilter seen xs)) ys))"
  by (induction xs arbitrary: seen) (simp_all add: split_beta)

lemma run_timeline:
  "messages (run evs s) = messages s @ snd (syncFilter (receivedMessageIds s) (deliveries evs))
   \<and> receivedMessageIds (run evs s) = fst (syncFilter (receivedMessageIds s) (deliveries evs))"
proof (induction evs arbitrary: s)
  case Nil
  show ?case by (simp add: deliveries_def)
next
  case (Cons e evs)
  have "deliveries (e # evs) = delivered e @ deliveries evs" by (simp add: deliveries_def)
  then show ?case
    by (simp add: Cons.IH step_timeline syncFilter_append)
qed

lemma syncFilter_seen: "fst (syncFilter seen xs) = seen \<union> msg_id ` set xs"
  by (induction xs arbitrary: seen) (auto simp: split_beta)

lemma syncFilter_kept_by_id:
  "filter (\<lambda>m. msg_id m = i) (snd (syncFilter seen xs)) =
     (if i \<in> seen then []
      else case find (\<lambda>m. msg_id m = i) xs of None \<Rightarrow> [] | Some m \<Rightarrow> [m])"
  by (induction xs arbitrary: seen) (auto simp: split_beta)

lemma syncFilter_all_seen:
  "msg_id ` set xs \<subseteq> seen \<Longrightarrow> snd (syncFilter seen xs) = []"
  by (induction xs arbitrary: seen) (auto simp: split_beta)

lemma syncFilter_subset: "set (snd (syncFilter seen xs)) \<subseteq> set xs"
  by (induction xs arbitrary: seen) (auto simp: split_beta)

lemma syncFilter_distinct:
  "distinct (map msg_id (snd (syncFilter seen xs)))
   \<and> msg_id ` set (snd (syncFilter seen xs)) \<inter> seen = {}"
proof (induction xs arbitrary: seen)
  case Nil
  show ?case by simp
next
  case (Cons x xs)
  show ?case
  proof (cases "msg_id x \<in> seen")
    case True
    with Cons.IH [of seen] show ?thesis by simp
  next
    case False
    with Cons.IH [of "insert (msg_id x) seen"] show ?thesis
      by (auto simp: split_beta)
  qed
qed

section \<open>The sample session, state by state\<close>

lemma Suc_Suc_0: "Suc (Suc 0) = 2"
  by simp

lemma submitted_eq:
  "submitted = \<lparr> message = [], messages = [], userCount = 0, isVerified = True,
       isUnderage = False, isConnected = True, receivedMessageIds = {},
       pendingMessages = [js_lit ''5-ab'' \<mapsto> pending_of hi 0 1], MY_USER_ID = me,
       timers = [1 \<mapsto> \<lparr>tm_msg = hi, tm_retry = 0, tm_due = 3000\<rparr>],
       timer_count = 1, acks = [0 \<mapsto> (hi, 0)], ack_count = 1,
       emitted = [\<lparr>em_time = 0, em_msg = hi, em_ack = 0\<rparr>],
       console = [LogConnected, LogSending (js_lit ''5-ab'') 1], now = 0 \<rparr>"
  by (simp add: submitted_def eval_defs hi_def)

lemma retried_eq:
  "retried = \<lparr> message = [], messages = [], userCount = 0, isVerified = True,
       isUnderage = False, isConnected = True, receivedMessageIds = {},
       pendingMessages = [js_lit ''5-ab'' \<mapsto> pending_of hi 1 2], MY_USER_ID = me,
       timers = [2 \<mapsto> \<lparr>tm_msg = hi, tm_retry = 1, tm_due = 6000\<rparr>],
       timer_count = 2, acks = [0 \<mapsto> (hi, 0), 1 \<mapsto> (hi, 1)], ack_count = 2,
       emitted = [\<lparr>em_time = 0, em_msg = hi, em_ack = 0\<rparr>, \<lparr>em_time = 3000, em_msg = hi, em_ack = 1\<rparr>],
       console = [LogConnected, LogSending (js_lit ''5-ab'') 1, WarnNoAck (js_lit ''5-ab''),
         LogRetrying (js_lit ''5-ab'') 1, LogSending (js_lit ''5-ab'') 2], now = 3000 \<rparr>"
  by (simp add: retried_def submitted_eq eval_defs hi_def Suc_Suc_0)


lemma exhausted_eq:
  "exhausted = \<lparr> message = [], messages = [], userCount = 0, isVerified = True,
       isUnderage = False, isConnected = True, receivedMessageIds = {},
       pendingMessages = [js_lit ''5-ab'' \<mapsto> pending_of hi 3 4], MY_USER_ID = me,
       timers = [4 \<mapsto> \<lparr>tm_msg = hi, tm_retry = 3, tm_due = 12000\<rparr>],
       timer_count = 4, acks = [0 \<mapsto> (hi, 0), 1 \<mapsto> (hi, 1), 2 \<mapsto> (hi, 2), 3 \<mapsto> (hi, 3)],
       ack_count = 4,
       emitted = [\<lparr>em_time = 0, em_msg = hi, em_ack = 0\<rparr>, \<lparr>em_time = 3000, em_msg = hi, em_ack = 1\<rparr>,
          \<lparr>em_time = 6000, em_msg = hi, em_ack = 2\<rparr>, \<lparr>em_time = 9000, em_msg = hi, em_ack = 3\<rparr>],
       console = [LogConnected, LogSending (js_lit ''5-ab'') 1,
         WarnNoAck (js_lit ''5-ab''), LogRetrying (js_lit ''5-ab'') 1, LogSending (js_lit ''5-ab'') 2,
         WarnNoAck (js_lit ''5-ab''), LogRetrying (js_lit ''5-ab'') 2, LogSending (js_lit ''5-ab'') 3,
         WarnNoAck (js_lit ''5-ab''), LogRetrying (js_lit ''5-ab'') 3, LogSending (js_lit ''5-ab'') 4],
       now = 9000 \<rparr>"
  by (simp add: exhausted_def retried_eq eval_defs hi_def Suc_Suc_0)

lemma failed_eq:
  "failed = exhausted \<lparr> pendingMessages := Map.empty, timers := Map.empty,
       console := console exhausted @ [WarnNoAck (js_lit ''5-ab''), ErrFailed (js_lit ''5-ab'')],
       now := 12000 \<rparr>"
  by (simp add: failed_def exhausted_eq eval_defs hi_def Suc_Suc_0)

lemma typed_eq:
  "typed = (init me False)\<lparr>console := [LogConnected], isConnected := True, isVerified := True,
      message := js_lit ''hi''\<rparr>"
  by (simp add: typed_def init_def handleConnect_def console_log_def)

lemma typed_hi: "newMessage 5 (js_lit ''ab'') typed = hi"
  by (simp add: typed_eq newMessage_def hi_def init_def me_def numToString.simps js_lit_def)

lemma typed_submitted: "step (Submit 5 (js_lit ''ab'')) typed = submitted"
  by (simp add: submitted_def typed_def)

section \<open>The colour of a sender\<close>

text \<open>
  Rounding never carries a Number past a double that bounds it, so the hash of a
  string of \<open>n\<close> code units is at most \<open>n * 2 ^ 32\<close> in absolute value: no sum or
  difference overflows. Below \<open>2 ^ 21\<close> code units nothing is rounded at all.
\<close>

lemma digit_code: "d < 10 \<Longrightarrow> 48 \<le> (of_nat (48 + d) :: 16 word) \<and> (of_nat (48 + d) :: 16 word) \<le> 57"
proof -
  assume "d < 10"
  then have "d \<in> {0, 1, 2, 3, 4, 5, 6, 7, 8, 9}" by auto
  then show ?thesis by auto
qed

lemma numToString_digits: "c \<in> set (numToString n) \<Longrightarrow> 48 \<le> c \<and> c \<le> 57"
proof (induction n arbitrary: c rule: numToString.induct)
  case (1 n)
  show ?case
  proof (cases "n < 10")
    case True
    with "1.prems" have "c = of_nat (48 + n)" by (simp add: numToString.simps)
    with True digit_code [of n] show ?thesis by simp
  next
    case False
    with "1.prems" have "c \<in> set (numToString (n div 10)) \<or> c = of_nat (48 + n mod 10)"
      by (subst (asm) numToString.simps) auto
    then show ?thesis
    proof
      assume "c \<in> set (numToString (n div 10))"
      with "1.IH" False show ?thesis by blast
    next
      assume c: "c = of_nat (48 + n mod 10)"
      have "n mod 10 < 10" by simp
      then show ?thesis unfolding c by (rule digit_code)
    qed
  qed
qed

lemma hue_lt: "hue str < 360"
  by (simp add: hue_def nat_less_iff)

lemma roundNat_small: "n < 2 ^ 53 \<Longrightarrow> roundNat n = n"
  by (simp add: roundNat_def expo.simps [of n])

lemma roundNumber_small: "\<bar>x\<bar> < 2 ^ 53 \<Longrightarrow> roundNumber x = x"
proof -
  assume "\<bar>x\<bar> < 2 ^ 53"
  then have "nat \<bar>x\<bar> < 2 ^ 53" by (simp add: nat_less_iff)
  then show ?thesis
    by (simp add: roundNumber_def roundNat_small sgn_if)
qed

lemma expo_lower: "2 ^ 53 \<le> n \<Longrightarrow> 2 ^ (52 + expo n) \<le> n"
proof (induction n rule: expo.induct)
  case (1 n)
  show ?case
  proof (cases "n div 2 < 2 ^ 53")
    case True
    then have "expo n = 1" using "1.prems" by (simp add: expo.simps [of n] expo.simps [of "n div 2"])
    with "1.prems" show ?thesis by simp
  next
    case False
    then have "2 ^ (52 + expo (n div 2)) \<le> n div 2" using "1.IH" "1.prems" by simp
    then have "2 * 2 ^ (52 + expo (n div 2)) \<le> 2 * (n div 2)" by simp
    also have "\<dots> \<le> n" by simp
    finally have "2 * 2 ^ (52 + expo (n div 2)) \<le> n" .
    moreover have "(2::nat) * 2 ^ (52 + expo (n div 2)) = 2 ^ (52 + Suc (expo (n div 2)))"
      by (simp add: power_add)
    ultimately have "2 ^ (52 + Suc (expo (n div 2))) \<le> n" by (simp only:)
    moreover have "expo n = Suc (expo (n div 2))" using "1.prems" by (simp add: expo.simps [of n])
    ultimately show ?thesis by (simp only:)
  qed
qed

lemma roundNat_le_grid:
  assumes "n \<le> k * 2 ^ j" "k < 2 ^ 53"
  shows "roundNat n \<le> k * 2 ^ j"
proof (cases "n < 2 ^ 53")
  case True
  with assms show ?thesis by (simp add: roundNat_small)
next
  case False
  let ?e = "expo n"
  let ?q = "(2::nat) ^ ?e"
  have "2 ^ (52 + ?e) \<le> n" using False by (intro expo_lower) simp
  also have "n < 2 ^ 53 * 2 ^ j"
  proof -
    have "k * 2 ^ j < 2 ^ 53 * 2 ^ j" using assms(2) by simp
    with assms(1) show ?thesis by linarith
  qed
  finally have "(2::nat) ^ (52 + ?e) < 2 ^ (53 + j)" by (simp add: power_add)
  then have "52 + ?e < 53 + j" by simp
  then have ej: "?e \<le> j" by simp
  then obtain d where j: "j = ?e + d" using le_Suc_ex by blast
  have M: "k * 2 ^ j = (k * 2 ^ d) * ?q" by (simp add: j power_add)
  have up: "(n div ?q + 1) * ?q \<le> k * 2 ^ j" if "n mod ?q \<noteq> 0"
  proof -
    have "n div ?q < k * 2 ^ d"
    proof (rule ccontr)
      assume "\<not> n div ?q < k * 2 ^ d"
      then have "k * 2 ^ d \<le> n div ?q" by simp
      then have "(k * 2 ^ d) * ?q \<le> (n div ?q) * ?q" by simp
      moreover have "(n div ?q) * ?q < n" using that
        by (metis div_mult_mod_eq less_add_same_cancel1 neq0_conv)
      ultimately show False using assms(1) M by linarith
    qed
    then have "n div ?q + 1 \<le> k * 2 ^ d" by simp
    then have "(n div ?q + 1) * ?q \<le> (k * 2 ^ d) * ?q" by (rule mult_le_mono1)
    then show ?thesis by (simp only: M)
  qed
  have down: "(n div ?q) * ?q \<le> k * 2 ^ j"
  proof -
    have "(n div ?q) * ?q \<le> n" by simp
    with assms(1) show ?thesis by linarith
  qed
  show ?thesis
  proof (cases "n mod ?q = 0")
    case True
    with down show ?thesis by (simp add: roundNat_def Let_def)
  next
    case False
    with up down show ?thesis by (simp add: roundNat_def Let_def)
  qed
qed


lemma abs_roundNumber: "\<bar>roundNumber x\<bar> = int (roundNat (nat \<bar>x\<bar>))"
  by (simp add: roundNumber_def abs_mult sgn_if roundNat_small)

lemma roundNumber_le_grid:
  assumes "\<bar>x\<bar> \<le> int k * 2 ^ j" "k < 2 ^ 53"
  shows "\<bar>roundNumber x\<bar> \<le> int k * 2 ^ j"
proof -
  have "nat \<bar>x\<bar> \<le> k * 2 ^ j"
    using assms(1) by (simp add: nat_le_iff)
  then have "roundNat (nat \<bar>x\<bar>) \<le> k * 2 ^ j"
    using assms(2) by (rule roundNat_le_grid)
  then have "int (roundNat (nat \<bar>x\<bar>)) \<le> int (k * 2 ^ j)"
    by (simp only: of_nat_le_iff)
  then show ?thesis by (simp add: abs_roundNumber)
qed

lemma shl5_bound: "- (2 ^ 31) \<le> shl5 h \<and> shl5 h < 2 ^ 31"
  using sint_ge [of "push_bit 5 (word_of_int h :: 32 word)"]
        sint_lt [of "push_bit 5 (word_of_int h :: 32 word)"]
  by (simp add: shl5_def)

lemma hash_step_bound:
  assumes "\<bar>h\<bar> \<le> int n * 2 ^ 32" "n < 2 ^ 52 - 1"
  shows "\<bar>hash_step h c\<bar> \<le> int (n + 1) * 2 ^ 32"
proof -
  have c: "uint c < 65536" using uint_bounded [of c] by simp
  have l: "- 2147483648 \<le> shl5 h" and u: "shl5 h < 2147483648"
    using shl5_bound [of h] by simp_all
  have h: "\<bar>h\<bar> \<le> int n * 4294967296" using assms(1) by simp
  have "\<bar>shl5 h - h\<bar> \<le> int (2 * n + 1) * 2147483648"
    using l u h by simp
  then have "\<bar>shl5 h - h\<bar> \<le> int (2 * n + 1) * 2 ^ 31" by simp
  moreover have "2 * n + 1 < (2::nat) ^ 53" using assms(2) by simp
  ultimately have "\<bar>roundNumber (shl5 h - h)\<bar> \<le> int (2 * n + 1) * 2 ^ 31"
    by (rule roundNumber_le_grid)
  then have r: "\<bar>roundNumber (shl5 h - h)\<bar> \<le> int (2 * n + 1) * 2147483648" by simp
  have r': "\<bar>roundNumber (shl5 h - h)\<bar> \<le> 2147483648 + 4294967296 * int n"
    using r by simp
  have "\<bar>uint c + roundNumber (shl5 h - h)\<bar> \<le> 4294967296 + 4294967296 * int n"
    using c r' uint_ge_0 [of c] by linarith
  then have "\<bar>uint c + roundNumber (shl5 h - h)\<bar> \<le> int (n + 1) * 2 ^ 32" by simp
  moreover have "n + 1 < (2::nat) ^ 53" using assms(2) by simp
  ultimately show ?thesis
    unfolding hash_step_def by (rule roundNumber_le_grid)
qed

lemma hash_of_bound:
  "length str < 2 ^ 52 \<Longrightarrow> \<bar>hash_of str\<bar> \<le> int (length str) * 2 ^ 32"
proof (induction str rule: rev_induct)
  case Nil
  show ?case by (simp add: hash_of_def)
next
  case (snoc c str)
  then have n: "length str < 2 ^ 52 - 1" by simp
  then have "\<bar>hash_of str\<bar> \<le> int (length str) * 2 ^ 32" using snoc.IH by simp
  from hash_step_bound [OF this n, of c] show ?case by (simp add: hash_of_def)
qed

lemma hash_of_exact:
  "length str < 2 ^ 21 \<Longrightarrow> hash_of str = foldl (\<lambda>h c. uint c + (shl5 h - h)) 0 str"
proof (induction str rule: rev_induct)
  case Nil
  show ?case by (simp add: hash_of_def)
next
  case (snoc c str)
  let ?h = "hash_of str"
  have len: "length str < 2097151" using snoc.prems by simp
  then have "length str < 2 ^ 52" by simp
  then have "\<bar>?h\<bar> \<le> int (length str) * 2 ^ 32" by (rule hash_of_bound)
  then have h: "\<bar>?h\<bar> \<le> 2097150 * 4294967296" using len by simp
  have c: "uint c < 65536" using uint_bounded [of c] by simp
  have l: "- 2147483648 \<le> shl5 ?h" and u: "shl5 ?h < 2147483648"
    using shl5_bound [of ?h] by simp_all
  have "\<bar>shl5 ?h - ?h\<bar> < 2 ^ 53" using l u h by simp
  then have r1: "roundNumber (shl5 ?h - ?h) = shl5 ?h - ?h" by (rule roundNumber_small)
  have "\<bar>uint c + (shl5 ?h - ?h)\<bar> < 9007199254740992"
    using l u h c uint_ge_0 [of c] by linarith
  then have "\<bar>uint c + (shl5 ?h - ?h)\<bar> < 2 ^ 53" by simp
  then have r2: "roundNumber (uint c + (shl5 ?h - ?h)) = uint c + (shl5 ?h - ?h)"
    by (rule roundNumber_small)
  have "hash_of (str @ [c]) = hash_step ?h c" by (simp add: hash_of_def)
  also have "\<dots> = uint c + (shl5 ?h - ?h)" by (simp add: hash_step_def r1 r2)
  also have "?h = foldl (\<lambda>h c. uint c + (shl5 h - h)) 0 str"
    using snoc.IH len by simp
  finally show ?case by simp
qed

lemma roundNat_ties:
  "roundNat (2 ^ 53 + 1) = 2 ^ 53" "roundNat (2 ^ 53 + 3) = 2 ^ 53 + 4"
  "roundNat (2 ^ 54 + 2) = 2 ^ 54" "roundNat (2 ^ 54 + 6) = 2 ^ 54 + 8"
  "roundNat (2 ^ 54 + 5) = 2 ^ 54 + 4" "roundNat 9007199997132803 = 9007199997132804"
  by (simp_all add: roundNat_def expo.simps Let_def)

text \<open>
  C10: \<open>stringToNeonColor\<close> depends on its argument alone. For every string of
  fewer than \<open>2 ^ 52\<close> code units, which is more than an engine can hold (the
  language allows \<open>2 ^ 53 - 1\<close>), it returns \<open>hsl(h, 100%, 60%)\<close>, where
  \<open>h\<close> is written in decimal digits, lies in \<open>0 \<le> h < 360\<close> and is the absolute value
  of the hash modulo 360; the hash is folded over the code units with the Number
  arithmetic of the program and never leaves the range of the doubles, and for a
  string of fewer than \<open>2 ^ 21\<close> code units it is the exact integer sum.
\<close>

theorem stringToNeonColor_hsl:
  assumes "length str < 2 ^ 52"
  shows "hue str < 360
   \<and> stringToNeonColor str = js_lit ''hsl('' @ numToString (hue str) @ js_lit '', 100%, 60%)''
   \<and> (\<forall>c \<in> set (numToString (hue str)). 48 \<le> c \<and> c \<le> 57)
   \<and> hue str =
       nat (\<bar>foldl (\<lambda>h c. roundNumber (uint c + roundNumber (shl5 h - h))) 0 str\<bar> mod 360)
   \<and> \<bar>foldl (\<lambda>h c. roundNumber (uint c + roundNumber (shl5 h - h))) 0 str\<bar>
       \<le> int (length str) * 2 ^ 32
   \<and> (length str < 2 ^ 21 \<longrightarrow>
        hue str = nat (\<bar>foldl (\<lambda>h c. uint c + (shl5 h - h)) 0 str\<bar> mod 360))
   \<and> (\<forall>str'. str' = str \<longrightarrow> stringToNeonColor str' = stringToNeonColor str)"
proof -
  have step: "hash_step = (\<lambda>h c. roundNumber (uint c + roundNumber (shl5 h - h)))"
    by (simp add: fun_eq_iff hash_step_def)
  have fold: "hash_of str = foldl (\<lambda>h c. roundNumber (uint c + roundNumber (shl5 h - h))) 0 str"
    by (simp add: hash_of_def step)
  have range: "\<bar>hash_of str\<bar> \<le> int (length str) * 2 ^ 32"
    using assms by (rule hash_of_bound)
  have short: "hue str = nat (\<bar>foldl (\<lambda>h c. uint c + (shl5 h - h)) 0 str\<bar> mod 360)"
    if "length str < 2 ^ 21"
    using hash_of_exact [OF that] by (simp add: hue_def)
  have "hue str = nat (\<bar>hash_of str\<bar> mod 360)" by (simp add: hue_def)
  with range short show ?thesis
    unfolding fold
    using hue_lt [of str] numToString_digits [of _ "hue str"]
    by (simp add: stringToNeonColor_def)
qed

theorem stringToNeonColor_hsl_witness:
  "length (js_lit ''ab'') < 2 ^ 21
   \<and> hue (js_lit ''ab'') = 225
   \<and> stringToNeonColor (js_lit ''ab'') = js_lit ''hsl(225, 100%, 60%)''
   \<and> stringToNeonColor (js_lit ''abcdefghijkl'') = js_lit ''hsl(18, 100%, 60%)''"
proof -
  have l: "length (js_lit ''ab'') < 2 ^ 52" "length (js_lit ''abcdefghijkl'') < 2 ^ 52"
    by (simp_all add: js_lit_def)
  have e: "hash_of (js_lit ''ab'') = 3105" "hash_of (js_lit ''abcdefghijkl'') = - 3988878138"
    by (subst hash_of_exact; simp add: shl5_def js_lit_def)+
  have h: "hue (js_lit ''ab'') = 225" and h2: "hue (js_lit ''abcdefghijkl'') = 18"
    by (simp_all add: hue_def e)
  have n: "numToString 225 = js_lit ''225''" "numToString 18 = js_lit ''18''" by code_simp+
  have a: "stringToNeonColor (js_lit ''ab'') =
      js_lit ''hsl('' @ numToString (hue (js_lit ''ab'')) @ js_lit '', 100%, 60%)''"
    using stringToNeonColor_hsl [OF l(1)] by (rule conjunct1 [OF conjunct2])
  have b: "stringToNeonColor (js_lit ''abcdefghijkl'') =
      js_lit ''hsl('' @ numToString (hue (js_lit ''abcdefghijkl'')) @ js_lit '', 100%, 60%)''"
    using stringToNeonColor_hsl [OF l(2)] by (rule conjunct1 [OF conjunct2])
  show ?thesis unfolding a b h h2 n by (simp add: js_lit_def)
qed

section \<open>Deduplication\<close>

text \<open>
  C1: whatever the events of a session and however often the relay delivers a message
  id, by \<open>receive_message\<close> or inside \<open>sync_messages\<close> batches, the timeline holds
  exactly one entry with that id, the first one delivered; the dedup set is the set of
  ids delivered; a first delivery is appended and a later delivery of a known id leaves
  the timeline as it is.
\<close>

theorem timeline_one_copy:
  "filter (\<lambda>m. msg_id m = i) (messages (run evs (init uid c))) =
     (case find (\<lambda>m. msg_id m = i) (deliveries evs) of None \<Rightarrow> [] | Some m \<Rightarrow> [m])
   \<and> (i \<in> msg_id ` set (deliveries evs) \<longrightarrow>
        length (filter (\<lambda>m. msg_id m = i) (messages (run evs (init uid c)))) = 1)
   \<and> receivedMessageIds (run evs (init uid c)) = msg_id ` set (deliveries evs)
   \<and> distinct (map msg_id (messages (run evs (init uid c))))
   \<and> (\<forall>data. msg_id data \<notin> msg_id ` set (deliveries evs) \<longrightarrow>
        messages (step (ReceiveMessage data) (run evs (init uid c))) =
          messages (run evs (init uid c)) @ [data])
   \<and> (\<forall>data. msg_id data \<in> msg_id ` set (deliveries evs) \<longrightarrow>
        messages (step (ReceiveMessage data) (run evs (init uid c))) =
          messages (run evs (init uid c)))
   \<and> (\<forall>batch. msg_id ` set batch \<subseteq> msg_id ` set (deliveries evs) \<longrightarrow>
        messages (step (SyncMessages batch) (run evs (init uid c))) =
          messages (run evs (init uid c)))"
proof -
  let ?s = "run evs (init uid c)"
  have ids: "receivedMessageIds ?s = msg_id ` set (deliveries evs)"
    by (simp add: run_timeline syncFilter_seen init_def)
  have one: "filter (\<lambda>m. msg_id m = i) (messages ?s) =
     (case find (\<lambda>m. msg_id m = i) (deliveries evs) of None \<Rightarrow> [] | Some m \<Rightarrow> [m])"
    by (simp add: run_timeline syncFilter_kept_by_id init_def)
  have len: "i \<in> msg_id ` set (deliveries evs) \<Longrightarrow>
      length (filter (\<lambda>m. msg_id m = i) (messages ?s)) = 1"
  proof -
    assume "i \<in> msg_id ` set (deliveries evs)"
    then have "find (\<lambda>m. msg_id m = i) (deliveries evs) \<noteq> None"
      by (auto simp: find_None_iff)
    then show ?thesis unfolding one by (auto split: option.splits)
  qed
  have fresh: "\<And>data. msg_id data \<notin> msg_id ` set (deliveries evs) \<Longrightarrow>
      messages (step (ReceiveMessage data) ?s) = messages ?s @ [data]"
    by (simp add: handleReceiveMessage_def console_log_def ids)
  have dup: "\<And>data. msg_id data \<in> msg_id ` set (deliveries evs) \<Longrightarrow>
      messages (step (ReceiveMessage data) ?s) = messages ?s"
    by (simp add: handleReceiveMessage_def console_log_def ids)
  have dups: "\<And>batch. msg_id ` set batch \<subseteq> msg_id ` set (deliveries evs) \<Longrightarrow>
      messages (step (SyncMessages batch) ?s) = messages ?s"
    by (simp add: handleSyncMessages_timeline ids syncFilter_all_seen)
  have dist: "distinct (map msg_id (messages ?s))"
    using syncFilter_distinct [of "{}" "deliveries evs"] by (simp add: run_timeline init_def)
  from ids one len fresh dup dups dist show ?thesis by blast
qed

theorem timeline_one_copy_witness:
  "messages (run [ReceiveMessage m1, SyncMessages [m1', m2, m1'], ReceiveMessage m1]
      (init me True)) = [m1, m2]
   \<and> filter (\<lambda>m. msg_id m = js_lit ''x'')
        (messages (run [ReceiveMessage m1, SyncMessages [m1', m2, m1'], ReceiveMessage m1]
          (init me True))) = [m1]"
proof -
  have "messages (run [ReceiveMessage m1, SyncMessages [m1', m2, m1'], ReceiveMessage m1]
      (init me True)) = [m1, m2]"
    by (simp add: eval_defs m1_def m1'_def m2_def)
  moreover have "find (\<lambda>m. msg_id m = js_lit ''x'')
      (deliveries [ReceiveMessage m1, SyncMessages [m1', m2, m1'], ReceiveMessage m1]) = Some m1"
    by (simp add: deliveries_def m1_def)
  ultimately show ?thesis
    using timeline_one_copy [of "js_lit ''x''"
        "[ReceiveMessage m1, SyncMessages [m1', m2, m1'], ReceiveMessage m1]" me True]
    by simp
qed

lemma syncFilter_index:
  "snd (syncFilter seen batch) =
     map ((!) batch)
       (filter (\<lambda>k. msg_id (batch ! k) \<notin> seen \<union> msg_id ` set (take k batch))
          [0..<length batch])"
proof (induction batch arbitrary: seen rule: rev_induct)
  case Nil
  show ?case by simp
next
  case (snoc x batch)
  let ?P = "\<lambda>b k. msg_id (b ! k) \<notin> seen \<union> msg_id ` set (take k b)"
  let ?n = "length batch"
  have old: "filter (?P (batch @ [x])) [0..<?n] = filter (?P batch) [0..<?n]"
    by (rule filter_cong) (auto simp: nth_append)
  have last: "?P (batch @ [x]) ?n \<longleftrightarrow> msg_id x \<notin> seen \<union> msg_id ` set batch"
    by simp
  have "filter (?P (batch @ [x])) [0..<length (batch @ [x])]
          = filter (?P (batch @ [x])) ([0..<?n] @ [?n])"
    by simp
  also have "\<dots> = filter (?P batch) [0..<?n] @ (if ?P (batch @ [x]) ?n then [?n] else [])"
    unfolding filter_append old by simp
  finally have idx: "filter (?P (batch @ [x])) [0..<length (batch @ [x])]
          = filter (?P batch) [0..<?n]
            @ (if msg_id x \<notin> seen \<union> msg_id ` set batch then [?n] else [])"
    unfolding last .
  have nth: "map ((!) (batch @ [x])) (filter (?P batch) [0..<?n])
           = map ((!) batch) (filter (?P batch) [0..<?n])"
    by (rule map_cong) (auto simp: nth_append)
  have "snd (syncFilter seen (batch @ [x])) =
          snd (syncFilter seen batch)
            @ (if msg_id x \<notin> seen \<union> msg_id ` set batch then [x] else [])"
    by (simp add: syncFilter_append syncFilter_seen)
  also have "\<dots> = map ((!) (batch @ [x])) (filter (?P batch) [0..<?n])
            @ (if msg_id x \<notin> seen \<union> msg_id ` set batch then [x] else [])"
    unfolding nth snoc.IH ..
  also have "\<dots> = map ((!) (batch @ [x])) (filter (?P (batch @ [x])) [0..<length (batch @ [x])])"
    unfolding idx by simp
  finally show ?case .
qed

text \<open>
  C7: a \<open>sync_messages\<close> batch appends to the timeline, after what is there, exactly
  the messages of the batch whose id is neither in the dedup set nor carried by an
  earlier message of the same batch, in the order of the batch; all ids of the batch
  join the dedup set.
\<close>

theorem sync_batch_appended_in_order:
  "messages (handleSyncMessages batch s) =
     messages s @ map ((!) batch)
       (filter (\<lambda>k. msg_id (batch ! k) \<notin> receivedMessageIds s \<union> msg_id ` set (take k batch))
          [0..<length batch])
   \<and> receivedMessageIds (handleSyncMessages batch s) =
       receivedMessageIds s \<union> msg_id ` set batch"
  by (simp add: handleSyncMessages_timeline syncFilter_seen syncFilter_index)

theorem sync_batch_appended_in_order_witness:
  "messages (handleSyncMessages [m1', m2, m1', m1]
      (run [ReceiveMessage m2] (init me True))) = [m2, m1']
   \<and> receivedMessageIds (handleSyncMessages [m1', m2, m1', m1]
      (run [ReceiveMessage m2] (init me True))) = {js_lit ''y'', js_lit ''x''}"
proof -
  have s: "messages (run [ReceiveMessage m2] (init me True)) = [m2]"
    "receivedMessageIds (run [ReceiveMessage m2] (init me True)) = {js_lit ''y''}"
    by (simp_all add: eval_defs m2_def)
  have up: "[0..<4] = [0, 1, 2, 3]" by (simp add: upt_rec)
  show ?thesis
    using sync_batch_appended_in_order [of "[m1', m2, m1', m1]" "run [ReceiveMessage m2] (init me True)"]
    unfolding s by (auto simp add: up m1_def m1'_def m2_def js_lit_def)
qed

section \<open>Submitting\<close>

text \<open>
  C8: when the input text is empty or consists of white space only, submitting the
  form changes nothing at all: no emission, no ledger entry, no timer, the input text
  as it was. Otherwise the text is emitted (untrimmed) in a new message, which gets a
  ledger entry and a timer, and the input is cleared.
\<close>

theorem blank_submit_does_nothing:
  "(trim (message s) = [] \<longleftrightarrow> (\<forall>c \<in> set (message s). isWhiteSpace c))
   \<and> (trim (message s) = [] \<longrightarrow>
        sendMessage dateNow rnd s = s \<and> step (Submit dateNow rnd) s = s)
   \<and> (trim (message s) \<noteq> [] \<longrightarrow>
        emitted (sendMessage dateNow rnd s) =
          emitted s @ [\<lparr>em_time = now s, em_msg = newMessage dateNow rnd s, em_ack = ack_count s\<rparr>]
        \<and> msg_text (newMessage dateNow rnd s) = message s
        \<and> pendingMessages (sendMessage dateNow rnd s) (msg_id (newMessage dateNow rnd s)) =
            Some (pending_of (newMessage dateNow rnd s) 0 (timer_count s + 1))
        \<and> timers (sendMessage dateNow rnd s) (timer_count s + 1) =
            Some \<lparr>tm_msg = newMessage dateNow rnd s, tm_retry = 0, tm_due = now s + RETRY_TIMEOUT\<rparr>
        \<and> message (sendMessage dateNow rnd s) = [])"
  by (simp add: trim_empty_iff sendMessage_def sendMessageWithRetry_def Let_def newMessage_def)

theorem blank_submit_does_nothing_witness:
  "trim (js_lit '' '') = []
   \<and> step (Submit 5 (js_lit ''ab'')) (run [Connect, ConfirmAge, Type (js_lit '' '')] (init me False))
       = run [Connect, ConfirmAge, Type (js_lit '' '')] (init me False)
   \<and> trim (js_lit '' hi '') = js_lit ''hi''
   \<and> map em_time (emitted (sendMessage 5 (js_lit ''ab'') (run [Connect, ConfirmAge, Type (js_lit '' hi '')] (init me False)))) = [0]
   \<and> message (sendMessage 5 (js_lit ''ab'') (run [Connect, ConfirmAge, Type (js_lit '' hi '')] (init me False))) = []"
  using blank_submit_does_nothing [of "run [Connect, ConfirmAge, Type (js_lit '' '')] (init me False)" 5 "js_lit ''ab''"]
    blank_submit_does_nothing [of "run [Connect, ConfirmAge, Type (js_lit '' hi '')] (init me False)" 5 "js_lit ''ab''"]
  by (simp add: eval_defs)

text \<open>
  C9: submitting never touches the timeline or the dedup set. An event changes the
  timeline only if it is a \<open>receive_message\<close> of an id not yet in the dedup set, which
  is appended, or a \<open>sync_messages\<close> batch that holds such an id; and every message of
  the timeline was delivered by the relay.
\<close>

theorem submit_leaves_timeline:
  "messages (sendMessage dateNow rnd s) = messages s
   \<and> messages (step (Submit dateNow rnd) s) = messages s
   \<and> receivedMessageIds (step (Submit dateNow rnd) s) = receivedMessageIds s
   \<and> (messages (step e s) \<noteq> messages s \<longrightarrow>
        (\<exists>data. e = ReceiveMessage data \<and> msg_id data \<notin> receivedMessageIds s
            \<and> messages (step e s) = messages s @ [data])
        \<or> (\<exists>batch. e = SyncMessages batch
            \<and> (\<exists>m \<in> set batch. msg_id m \<notin> receivedMessageIds s)))
   \<and> set (messages (run evs (init uid c))) \<subseteq> set (deliveries evs)"
proof -
  have sub: "messages (sendMessage dateNow rnd s) = messages s"
    "receivedMessageIds (sendMessage dateNow rnd s) = receivedMessageIds s"
    by (simp_all add: sendMessage_timeline)
  have only: "(\<exists>data. e = ReceiveMessage data \<and> msg_id data \<notin> receivedMessageIds s
            \<and> messages (step e s) = messages s @ [data])
        \<or> (\<exists>batch. e = SyncMessages batch
            \<and> (\<exists>m \<in> set batch. msg_id m \<notin> receivedMessageIds s))"
    if ch: "messages (step e s) \<noteq> messages s"
  proof (cases e)
    case (ReceiveMessage data)
    with ch show ?thesis
      by (auto simp: handleReceiveMessage_def console_log_def split: if_splits)
  next
    case (SyncMessages batch)
    with ch have "snd (syncFilter (receivedMessageIds s) batch) \<noteq> []"
      by (simp add: handleSyncMessages_timeline)
    then have "\<not> msg_id ` set batch \<subseteq> receivedMessageIds s"
      using syncFilter_all_seen by blast
    with SyncMessages show ?thesis by auto
  qed (use ch step_timeline [of e s] in simp_all)
  have "set (messages (run evs (init uid c))) \<subseteq> set (deliveries evs)"
    using syncFilter_subset [of "{}" "deliveries evs"]
    by (simp add: run_timeline init_def)
  with sub only show ?thesis by simp
qed

theorem submit_leaves_timeline_witness:
  "messages typed = [] \<and> messages (step (Submit 5 (js_lit ''ab'')) typed) = []
   \<and> step (Submit 5 (js_lit ''ab'')) typed = submitted
   \<and> messages (step (ReceiveMessage hi) submitted) = [hi]
   \<and> messages (step (ReceiveMessage hi) submitted) \<noteq> messages submitted"
proof -
  have m: "messages typed = []" "messages submitted = []" "receivedMessageIds submitted = {}"
    by (simp_all add: typed_eq submitted_eq init_def)
  have r: "messages (step (ReceiveMessage hi) submitted) = [hi]"
    by (simp add: m handleReceiveMessage_def console_log_def)
  from submit_leaves_timeline [of 5 "js_lit ''ab''" typed "Connect" "[]" me False]
    submit_leaves_timeline [of 5 "js_lit ''ab''" submitted "ReceiveMessage hi" "[]" me False]
  show ?thesis
    unfolding r typed_submitted by (simp add: m)
qed

section \<open>Connecting\<close>

text \<open>
  C4, as the code has it: a \<open>connect\<close> or \<open>reconnect\<close> event sets \<open>isConnected\<close> and
  writes a console line, nothing else. Nothing is emitted to the relay, so no ledger
  entry is resent and no resynchronisation is requested; the ledger, the timers and
  the pending acknowledgment callbacks are as before.
\<close>

theorem connect_only_sets_flag:
  "isConnected (step Connect s) \<and> isConnected (step (Reconnect n) s)
   \<and> emitted (step Connect s) = emitted s \<and> emitted (step (Reconnect n) s) = emitted s
   \<and> pendingMessages (step Connect s) = pendingMessages s
   \<and> pendingMessages (step (Reconnect n) s) = pendingMessages s
   \<and> timers (step Connect s) = timers s \<and> timers (step (Reconnect n) s) = timers s
   \<and> acks (step Connect s) = acks s \<and> acks (step (Reconnect n) s) = acks s
   \<and> step Connect s = s\<lparr>console := console s @ [LogConnected], isConnected := True\<rparr>
   \<and> step (Reconnect n) s = s\<lparr>console := console s @ [LogReconnected n], isConnected := True\<rparr>"
  by (simp add: handleConnect_def handleReconnect_def console_log_def)

text \<open>
  C4 as claimed fails: reconnecting with an entry in the ledger emits nothing. In this
  run the entry is not sent again before its own timer fires, 3000 ms after the
  emission.
\<close>

theorem reconnect_resends_nothing:
  "\<not> isConnected outage
   \<and> pendingMessages outage (js_lit ''5-ab'') \<noteq> None
   \<and> isConnected (step (Reconnect 1) outage)
   \<and> emitted (step (Reconnect 1) outage) = emitted outage
   \<and> isConnected (step Connect outage)
   \<and> emitted (step Connect outage) = emitted outage
   \<and> map em_time (emitted (run [Reconnect 1, Tick 2999, TimerFire 1] outage)) = [0]
   \<and> map em_time (emitted (run [Reconnect 1, Tick 3000, TimerFire 1] outage)) = [0, 3000]"
  by (simp add: outage_def eval_defs)

section \<open>Timer handles stay in order\<close>

lemma handles_ok_timer:
  "handles_ok s \<Longrightarrow> timers s t = Some tm \<Longrightarrow> t \<le> timer_count s"
  by (simp add: handles_ok_def)

lemma handles_ok_entry:
  "handles_ok s \<Longrightarrow> pendingMessages s j = Some p \<Longrightarrow> timeout p = Some t \<Longrightarrow> t \<le> timer_count s"
  by (simp add: handles_ok_def)

lemma handles_ok_entry_timer:
  "handles_ok s \<Longrightarrow> pendingMessages s j = Some p \<Longrightarrow> timeout p = Some t \<Longrightarrow>
     timers s t = Some tm \<Longrightarrow> msg_id (tm_msg tm) = j"
  by (simp add: handles_ok_def)

lemma handles_okI:
  "(\<And>t tm. timers s t = Some tm \<Longrightarrow> t \<le> timer_count s) \<Longrightarrow>
   (\<And>j p t. pendingMessages s j = Some p \<Longrightarrow> timeout p = Some t \<Longrightarrow> t \<le> timer_count s) \<Longrightarrow>
   (\<And>j p t tm. pendingMessages s j = Some p \<Longrightarrow> timeout p = Some t \<Longrightarrow>
      timers s t = Some tm \<Longrightarrow> msg_id (tm_msg tm) = j) \<Longrightarrow>
   handles_ok s"
  unfolding handles_ok_def by blast

lemma handles_ok_init: "handles_ok (init uid c)"
  by (simp add: handles_ok_def init_def)

lemma handles_ok_fields [simp]:
  "handles_ok (s\<lparr>message := a\<rparr>) = handles_ok s"
  "handles_ok (s\<lparr>messages := b\<rparr>) = handles_ok s"
  "handles_ok (s\<lparr>userCount := c\<rparr>) = handles_ok s"
  "handles_ok (s\<lparr>isVerified := d\<rparr>) = handles_ok s"
  "handles_ok (s\<lparr>isUnderage := d\<rparr>) = handles_ok s"
  "handles_ok (s\<lparr>isConnected := d\<rparr>) = handles_ok s"
  "handles_ok (s\<lparr>receivedMessageIds := f\<rparr>) = handles_ok s"
  "handles_ok (s\<lparr>acks := g\<rparr>) = handles_ok s"
  "handles_ok (s\<lparr>now := h\<rparr>) = handles_ok s"
  "handles_ok (s\<lparr>console := l\<rparr>) = handles_ok s"
  "handles_ok (s\<lparr>emitted := es\<rparr>) = handles_ok s"
  "handles_ok (s\<lparr>ack_count := n\<rparr>) = handles_ok s"
  by (simp_all add: handles_ok_def)

lemma handles_ok_console_log [simp]: "handles_ok (console_log e s) = handles_ok s"
  by (simp add: console_log_def)

lemma handles_ok_timer_gone:
  "handles_ok s \<Longrightarrow> handles_ok (s\<lparr>timers := (timers s)(t := None)\<rparr>)"
  by (simp add: handles_ok_def)

lemma handles_ok_clearTimeout: "handles_ok s \<Longrightarrow> handles_ok (clearTimeout t s)"
  by (simp add: clearTimeout_def handles_ok_timer_gone)

lemma handles_ok_forget:
  "handles_ok s \<Longrightarrow> handles_ok (s\<lparr>pendingMessages := (pendingMessages s)(j := None)\<rparr>)"
  by (simp add: handles_ok_def)

lemma handles_ok_sendMessageWithRetry:
  assumes "handles_ok s"
  shows "handles_ok (sendMessageWithRetry m rc s)"
proof (rule handles_okI)
  fix t tm
  assume "timers (sendMessageWithRetry m rc s) t = Some tm"
  then show "t \<le> timer_count (sendMessageWithRetry m rc s)"
    using handles_ok_timer [OF assms, of t]
    by (auto simp: sendMessageWithRetry_def Let_def split: if_splits)
next
  fix j p t
  assume "pendingMessages (sendMessageWithRetry m rc s) j = Some p" "timeout p = Some t"
  then show "t \<le> timer_count (sendMessageWithRetry m rc s)"
    using handles_ok_entry [OF assms, of j p t]
    by (auto simp: sendMessageWithRetry_def Let_def pending_of_def split: if_splits)
next
  fix j p t tm
  assume "pendingMessages (sendMessageWithRetry m rc s) j = Some p" "timeout p = Some t"
    "timers (sendMessageWithRetry m rc s) t = Some tm"
  then show "msg_id (tm_msg tm) = j"
    using handles_ok_entry [OF assms, of j p t] handles_ok_entry_timer [OF assms, of j p t tm]
    by (auto simp: sendMessageWithRetry_def Let_def pending_of_def split: if_splits)
qed

lemma handles_ok_handleMessageFailure:
  assumes "handles_ok s"
  shows "handles_ok (handleMessageFailure m rc s)"
proof -
  let ?s1 = "case pendingMessages s (msg_id m) of
                  None \<Rightarrow> s
                | Some pending \<Rightarrow>
                    (case timeout pending of
                       None \<Rightarrow> s
                     | Some t \<Rightarrow> if t \<noteq> 0 then clearTimeout t s else s)"
  have s1: "handles_ok ?s1"
    using assms by (simp add: handles_ok_clearTimeout split: option.splits)
  show ?thesis
  proof (cases "rc < MAX_RETRIES")
    case True
    then have "handleMessageFailure m rc s =
        sendMessageWithRetry m (rc + 1) (console_log (LogRetrying (msg_id m) (rc + 1)) ?s1)"
      by (simp add: handleMessageFailure_def Let_def)
    with s1 show ?thesis by (simp add: handles_ok_sendMessageWithRetry)
  next
    case False
    then have "handleMessageFailure m rc s =
        (console_log (ErrFailed (msg_id m)) ?s1)
          \<lparr>pendingMessages := (pendingMessages ?s1)(msg_id m := None)\<rparr>"
      by (simp add: handleMessageFailure_def Let_def)
    moreover have "handles_ok ((console_log (ErrFailed (msg_id m)) ?s1)
          \<lparr>pendingMessages := (pendingMessages (console_log (ErrFailed (msg_id m)) ?s1))(msg_id m := None)\<rparr>)"
      using s1 by (intro handles_ok_forget) simp
    ultimately show ?thesis by (simp add: console_log_def)
  qed
qed

lemma handles_ok_ackCallback:
  assumes "handles_ok s"
  shows "handles_ok (ackCallback m rc r s)"
proof (cases "ack_success r")
  case True
  have "handles_ok ((console_log (LogAckReceived r) s)
      \<lparr>pendingMessages := (pendingMessages (console_log (LogAckReceived r) s))(msg_id m := None)\<rparr>)"
    using assms by (intro handles_ok_forget) simp
  with True show ?thesis by (simp add: ackCallback_def Let_def)
next
  case False
  with assms show ?thesis
    by (simp add: ackCallback_def Let_def handles_ok_handleMessageFailure)
qed

lemma handles_ok_timeoutCallback:
  "handles_ok s \<Longrightarrow> handles_ok (timeoutCallback m rc s)"
  by (simp add: timeoutCallback_def handles_ok_handleMessageFailure)

lemma handles_ok_step: "handles_ok s \<Longrightarrow> handles_ok (step e s)"
proof (cases e)
  case (Ack k resp)
  assume "handles_ok s"
  with Ack show ?thesis
    by (simp add: handles_ok_ackCallback split: option.splits)
next
  case (TimerFire t)
  assume "handles_ok s"
  with TimerFire show ?thesis
    by (simp add: handles_ok_timeoutCallback handles_ok_timer_gone split: option.splits)
next
  case (Submit d r)
  assume "handles_ok s"
  with Submit show ?thesis
    by (simp add: sendMessage_def handles_ok_sendMessageWithRetry)
next
  case (SyncMessages b)
  assume "handles_ok s"
  with SyncMessages show ?thesis
    by (simp add: handleSyncMessages_def Let_def split: prod.splits)
next
  case (ReceiveMessage d)
  assume "handles_ok s"
  with ReceiveMessage show ?thesis
    by (simp add: handleReceiveMessage_def)
qed (simp_all add: socket_defs)

lemma handles_ok_run: "handles_ok s \<Longrightarrow> handles_ok (run evs s)"
  by (induction evs arbitrary: s) (simp_all add: handles_ok_step)

section \<open>Events about other messages leave a message alone\<close>

lemma iview_fields [simp]:
  "iview i (s\<lparr>message := a\<rparr>) = iview i s"
  "iview i (s\<lparr>messages := b\<rparr>) = iview i s"
  "iview i (s\<lparr>userCount := c\<rparr>) = iview i s"
  "iview i (s\<lparr>isVerified := d\<rparr>) = iview i s"
  "iview i (s\<lparr>isUnderage := d\<rparr>) = iview i s"
  "iview i (s\<lparr>isConnected := d\<rparr>) = iview i s"
  "iview i (s\<lparr>receivedMessageIds := f\<rparr>) = iview i s"
  "iview i (s\<lparr>acks := g\<rparr>) = iview i s"
  "iview i (s\<lparr>now := h\<rparr>) = iview i s"
  "iview i (s\<lparr>ack_count := n\<rparr>) = iview i s"
  "iview i (s\<lparr>timer_count := n\<rparr>) = iview i s"
  by (simp_all add: iview_def timers_of_def sent_def failures_def)

lemma iview_console_log: "e \<noteq> ErrFailed i \<Longrightarrow> iview i (console_log e s) = iview i s"
  by (simp add: iview_def timers_of_def sent_def failures_def console_log_def)

lemma iview_timer_gone:
  "timers_of i s t = None \<Longrightarrow> iview i (s\<lparr>timers := (timers s)(t := None)\<rparr>) = iview i s"
  by (auto simp: iview_def timers_of_def sent_def failures_def fun_eq_iff split: option.splits if_splits)

lemma iview_forget:
  "j \<noteq> i \<Longrightarrow> iview i (s\<lparr>pendingMessages := (pendingMessages s)(j := None)\<rparr>) = iview i s"
  by (simp add: iview_def timers_of_def sent_def failures_def)

lemma timers_of_beyond: "handles_ok s \<Longrightarrow> timers s (timer_count s + 1) = None"
  using handles_ok_timer [of s "timer_count s + 1"] by (cases "timers s (timer_count s + 1)") auto

lemma iview_sendMessageWithRetry:
  assumes "handles_ok s" "msg_id m \<noteq> i"
  shows "iview i (sendMessageWithRetry m rc s) = iview i s"
proof -
  have "timers_of i (sendMessageWithRetry m rc s) = timers_of i s"
    using timers_of_beyond [OF assms(1)] assms(2)
    by (auto simp: timers_of_def sendMessageWithRetry_def Let_def fun_eq_iff)
  then show ?thesis
    using assms(2) by (simp add: iview_def sent_def failures_def sendMessageWithRetry_def Let_def)
qed

lemma iview_handleMessageFailure:
  assumes "handles_ok s" "msg_id m \<noteq> i"
  shows "iview i (handleMessageFailure m rc s) = iview i s"
proof -
  let ?s1 = "case pendingMessages s (msg_id m) of
                  None \<Rightarrow> s
                | Some pending \<Rightarrow>
                    (case timeout pending of
                       None \<Rightarrow> s
                     | Some t \<Rightarrow> if t \<noteq> 0 then clearTimeout t s else s)"
  have ok: "handles_ok ?s1"
    using assms(1) by (simp add: handles_ok_clearTimeout split: option.splits)
  have v: "iview i ?s1 = iview i s"
  proof (cases "pendingMessages s (msg_id m)")
    case None
    then show ?thesis by simp
  next
    case (Some p)
    show ?thesis
    proof (cases "timeout p")
      case None
      with Some show ?thesis by simp
    next
      case (Some t)
      have "timers_of i s t = None"
        using handles_ok_entry_timer [OF assms(1) \<open>pendingMessages s (msg_id m) = Some p\<close> Some] assms(2)
        by (auto simp: timers_of_def split: option.splits)
      with Some \<open>pendingMessages s (msg_id m) = Some p\<close> show ?thesis
        by (simp add: clearTimeout_def iview_timer_gone)
    qed
  qed
  show ?thesis
  proof (cases "rc < MAX_RETRIES")
    case True
    then have "handleMessageFailure m rc s =
        sendMessageWithRetry m (rc + 1) (console_log (LogRetrying (msg_id m) (rc + 1)) ?s1)"
      by (simp add: handleMessageFailure_def Let_def)
    with ok v assms(2) show ?thesis
      by (simp add: iview_sendMessageWithRetry iview_console_log)
  next
    case False
    then have "handleMessageFailure m rc s =
        (console_log (ErrFailed (msg_id m)) ?s1)
          \<lparr>pendingMessages := (pendingMessages (console_log (ErrFailed (msg_id m)) ?s1))(msg_id m := None)\<rparr>"
      by (simp add: handleMessageFailure_def Let_def console_log_def)
    with v assms(2) show ?thesis
      by (simp add: iview_forget iview_console_log)
  qed
qed

lemma iview_ackCallback:
  assumes "handles_ok s" "msg_id m \<noteq> i"
  shows "iview i (ackCallback m rc r s) = iview i s"
proof (cases "ack_success r")
  case True
  then have "ackCallback m rc r s = console_log (LogConfirmed (msg_id m))
      ((console_log (LogAckReceived r) s)
         \<lparr>pendingMessages := (pendingMessages (console_log (LogAckReceived r) s))(msg_id m := None)\<rparr>)"
    by (simp add: ackCallback_def Let_def)
  with assms(2) show ?thesis by (simp add: iview_console_log iview_forget)
next
  case False
  with assms show ?thesis
    by (simp add: ackCallback_def Let_def iview_handleMessageFailure iview_console_log)
qed

lemma iview_timeoutCallback:
  "handles_ok s \<Longrightarrow> msg_id m \<noteq> i \<Longrightarrow> iview i (timeoutCallback m rc s) = iview i s"
  by (simp add: timeoutCallback_def iview_handleMessageFailure iview_console_log)

lemma iview_step_other:
  assumes ok: "handles_ok s" and al: "allowed i e s"
    and nt: "\<And>t. e = TimerFire t \<Longrightarrow> timers_of i s t = None"
  shows "iview i (step e s) = iview i s"
proof (cases e)
  case (Ack k resp)
  show ?thesis
  proof (cases "acks s k")
    case None
    with Ack show ?thesis by simp
  next
    case (Some a)
    obtain m rc where a: "a = (m, rc)" by (cases a)
    with al Ack Some have "msg_id m \<noteq> i" by simp
    with Ack Some a ok show ?thesis by (simp add: iview_ackCallback)
  qed
next
  case (TimerFire t)
  show ?thesis
  proof (cases "timers s t")
    case None
    with TimerFire show ?thesis by simp
  next
    case (Some tm)
    with nt [OF TimerFire] have ne: "msg_id (tm_msg tm) \<noteq> i"
      by (auto simp: timers_of_def split: if_splits)
    have "handles_ok (s\<lparr>timers := (timers s)(t := None)\<rparr>)"
      using ok by (rule handles_ok_timer_gone)
    with TimerFire Some ne nt [OF TimerFire] show ?thesis
      by (simp add: iview_timeoutCallback iview_timer_gone)
  qed
next
  case (Submit d r)
  with al ok show ?thesis
    by (auto simp: sendMessage_def iview_sendMessageWithRetry)
next
  case (SyncMessages b)
  then show ?thesis
    by (simp add: handleSyncMessages_def Let_def iview_console_log split: prod.splits)
next
  case (ReceiveMessage d)
  then show ?thesis
    by (simp add: handleReceiveMessage_def iview_console_log)
qed (simp_all add: socket_defs iview_console_log)

section \<open>A timer of the message fires\<close>

lemma spaced_snoc:
  "spaced ts \<Longrightarrow> ts \<noteq> [] \<Longrightarrow> last ts + RETRY_TIMEOUT \<le> x \<Longrightarrow> spaced (ts @ [x])"
  by (induction ts rule: spaced.induct) simp_all

lemma fire_due:
  assumes "pendingMessages s (msg_id m) = Some p" "timeout p = Some t"
    and "timers s t = Some \<lparr>tm_msg = m, tm_retry = k, tm_due = due\<rparr>" "due \<le> now s"
  shows "step (TimerFire t) s =
     (if k < MAX_RETRIES
      then sendMessageWithRetry m (k + 1)
             (s\<lparr>timers := (timers s)(t := None),
                console := console s @ [WarnNoAck (msg_id m), LogRetrying (msg_id m) (k + 1)]\<rparr>)
      else s\<lparr>timers := (timers s)(t := None),
             console := console s @ [WarnNoAck (msg_id m), ErrFailed (msg_id m)],
             pendingMessages := (pendingMessages s)(msg_id m := None)\<rparr>)"
  using assms
  by (simp add: timeoutCallback_def handleMessageFailure_def clearTimeout_def console_log_def Let_def)


lemma retry_view_okD_live:
  assumes "retry_view_ok m (iview i s)" "pendingMessages s i = Some p"
  shows "(\<forall>e \<in> set (sent i s). em_msg e = m) \<and> spaced (map em_time (sent i s))
     \<and> sent i s \<noteq> [] \<and> length (sent i s) \<le> MAX_RETRIES + 1 \<and> failures i s = 0
     \<and> (\<exists>t. p = pending_of m (length (sent i s) - 1) t
           \<and> timers_of i s = [t \<mapsto> \<lparr>tm_msg = m, tm_retry = length (sent i s) - 1,
                  tm_due = em_time (last (sent i s)) + RETRY_TIMEOUT\<rparr>])"
  using assms by (auto simp: retry_view_ok_def iview_def split: option.splits)

lemma retry_view_okD_done:
  assumes "retry_view_ok m (iview i s)" "pendingMessages s i = None"
  shows "(\<forall>e \<in> set (sent i s). em_msg e = m) \<and> spaced (map em_time (sent i s))
     \<and> length (sent i s) = MAX_RETRIES + 1 \<and> failures i s = 1 \<and> timers_of i s = Map.empty"
  using assms by (simp add: retry_view_ok_def iview_def)

lemma timers_of_Some: "timers_of i s t = Some tm \<Longrightarrow> timers s t = Some tm"
  by (auto simp: timers_of_def split: option.splits if_splits)

lemma retry_view_fire:
  assumes ok: "handles_ok s" and v: "retry_view_ok m (iview (msg_id m) s)"
    and tm: "timers_of (msg_id m) s t = Some tm"
  shows "retry_view_ok m (iview (msg_id m) (step (TimerFire t) s))"
proof -
  let ?i = "msg_id m"
  let ?es = "sent ?i s"
  let ?k = "length ?es - 1"
  let ?due = "em_time (last ?es) + RETRY_TIMEOUT"
  obtain p where p: "pendingMessages s ?i = Some p"
    using retry_view_okD_done [OF v] tm by (cases "pendingMessages s ?i") auto
  note live = retry_view_okD_live [OF v p]
  then obtain t' where p': "p = pending_of m ?k t'"
    and tms: "timers_of ?i s = [t' \<mapsto> \<lparr>tm_msg = m, tm_retry = ?k, tm_due = ?due\<rparr>]"
    by blast
  from tm tms have t: "t' = t" and tmv: "tm = \<lparr>tm_msg = m, tm_retry = ?k, tm_due = ?due\<rparr>"
    by (auto split: if_splits)
  have armed: "timers s t = Some \<lparr>tm_msg = m, tm_retry = ?k, tm_due = ?due\<rparr>"
    using timers_of_Some [OF tm] tmv by simp
  have pt: "timeout p = Some t" using p' t by (simp add: pending_of_def)
  show ?thesis
  proof (cases "?due \<le> now s")
    case False
    with armed v show ?thesis by simp
  next
    case True
    note fire = fire_due [OF p pt armed True]
    let ?s' = "s\<lparr>timers := (timers s)(t := None),
                console := console s @ [WarnNoAck ?i, LogRetrying ?i (?k + 1)]\<rparr>"
    have gone: "timers_of ?i (s\<lparr>timers := (timers s)(t := None)\<rparr>) = Map.empty"
      using tms t by (auto simp: timers_of_def fun_eq_iff split: option.splits if_splits)
    show ?thesis
    proof (cases "?k < MAX_RETRIES")
      case True
      have beyond: "timers s (timer_count s + 1) = None"
        using ok by (rule timers_of_beyond)
      have "timers_of ?i (sendMessageWithRetry m (?k + 1) ?s') =
          [timer_count s + 1 \<mapsto> \<lparr>tm_msg = m, tm_retry = ?k + 1, tm_due = now s + RETRY_TIMEOUT\<rparr>]"
      proof
        fix x
        have "timers_of ?i (s\<lparr>timers := (timers s)(t := None)\<rparr>) x = None"
          using gone by simp
        then show "timers_of ?i (sendMessageWithRetry m (?k + 1) ?s') x =
          [timer_count s + 1 \<mapsto> \<lparr>tm_msg = m, tm_retry = ?k + 1, tm_due = now s + RETRY_TIMEOUT\<rparr>] x"
          by (simp add: timers_of_def sendMessageWithRetry_def Let_def)
      qed
      moreover have "sent ?i (sendMessageWithRetry m (?k + 1) ?s') =
          ?es @ [\<lparr>em_time = now s, em_msg = m, em_ack = ack_count s\<rparr>]"
        by (simp add: sent_def sendMessageWithRetry_def Let_def)
      moreover have "failures ?i (sendMessageWithRetry m (?k + 1) ?s') = 0"
        using live by (simp add: failures_def sendMessageWithRetry_def Let_def)
      moreover have "pendingMessages (sendMessageWithRetry m (?k + 1) ?s') ?i =
          Some (pending_of m (?k + 1) (timer_count s + 1))"
        by (simp add: sendMessageWithRetry_def Let_def)
      moreover have "spaced (map em_time ?es @ [now s])"
        using live \<open>?due \<le> now s\<close> by (intro spaced_snoc) (simp_all add: last_map)
      moreover have "length ?es + 1 \<le> MAX_RETRIES + 1" "length ?es - 1 + 1 = length ?es"
        using True live by (cases ?es; simp)+
      moreover have st: "step (TimerFire t) s = sendMessageWithRetry m (?k + 1) ?s'"
        using fire True by (simp only: if_True)
      ultimately show ?thesis
        unfolding st using live by (simp add: retry_view_ok_def iview_def pending_of_def)
    next
      case False
      have "0 < length ?es" using live by simp
      with False live have len: "length ?es = MAX_RETRIES + 1" by linarith
      let ?s'' = "s\<lparr>timers := (timers s)(t := None),
             console := console s @ [WarnNoAck ?i, ErrFailed ?i],
             pendingMessages := (pendingMessages s)(?i := None)\<rparr>"
      have "timers_of ?i ?s'' = Map.empty"
        using gone by (simp add: timers_of_def)
      moreover have "sent ?i ?s'' = ?es" by (simp add: sent_def)
      moreover have "failures ?i ?s'' = 1" using live by (simp add: failures_def)
      moreover have st: "step (TimerFire t) s = ?s''"
        using fire False by (simp only: if_False)
      ultimately show ?thesis
        unfolding st using live len by (simp add: retry_view_ok_def iview_def)
    qed
  qed
qed

lemma retry_view_step:
  assumes "handles_ok s" "retry_view_ok m (iview (msg_id m) s)" "allowed (msg_id m) e s"
  shows "retry_view_ok m (iview (msg_id m) (step e s))"
proof (cases "\<exists>t tm. e = TimerFire t \<and> timers_of (msg_id m) s t = Some tm")
  case True
  with assms show ?thesis by (auto intro: retry_view_fire)
next
  case False
  then have "timers_of (msg_id m) s t = None" if "e = TimerFire t" for t
    using that by (cases "timers_of (msg_id m) s t") auto
  with assms show ?thesis by (simp add: iview_step_other)
qed

lemma retry_view_run:
  "handles_ok s \<Longrightarrow> retry_view_ok m (iview (msg_id m) s) \<Longrightarrow> unanswered (msg_id m) evs s \<Longrightarrow>
     retry_view_ok m (iview (msg_id m) (run evs s))"
  by (induction evs arbitrary: s) (simp_all add: handles_ok_step retry_view_step)

lemma retry_view_start:
  assumes "handles_ok s" "timers_of (msg_id m) s = Map.empty" "sent (msg_id m) s = []"
    "failures (msg_id m) s = 0"
  shows "retry_view_ok m (iview (msg_id m) (sendMessageWithRetry m 0 s))"
proof -
  have "timers_of (msg_id m) (sendMessageWithRetry m 0 s) =
      [timer_count s + 1 \<mapsto> \<lparr>tm_msg = m, tm_retry = 0, tm_due = now s + RETRY_TIMEOUT\<rparr>]"
  proof
    fix x
    have "timers_of (msg_id m) s x = None" using assms(2) by simp
    then show "timers_of (msg_id m) (sendMessageWithRetry m 0 s) x =
      [timer_count s + 1 \<mapsto> \<lparr>tm_msg = m, tm_retry = 0, tm_due = now s + RETRY_TIMEOUT\<rparr>] x"
      by (simp add: timers_of_def sendMessageWithRetry_def Let_def)
  qed
  moreover have "sent (msg_id m) (sendMessageWithRetry m 0 s) =
      [\<lparr>em_time = now s, em_msg = m, em_ack = ack_count s\<rparr>]"
    using assms(3) by (simp add: sent_def sendMessageWithRetry_def Let_def)
  moreover have "failures (msg_id m) (sendMessageWithRetry m 0 s) = 0"
    using assms(4) by (simp add: failures_def sendMessageWithRetry_def Let_def)
  moreover have "pendingMessages (sendMessageWithRetry m 0 s) (msg_id m) =
      Some (pending_of m 0 (timer_count s + 1))"
    by (simp add: sendMessageWithRetry_def Let_def)
  ultimately show ?thesis
    by (simp add: retry_view_ok_def iview_def pending_of_def)
qed

section \<open>A message that is never acknowledged\<close>

lemma rendered_timer [simp]: "rendered (step (TimerFire t) s) = rendered s"
  by (simp add: rendered_def timeoutCallback_def handleMessageFailure_def
      sendMessageWithRetry_def clearTimeout_def console_log_def Let_def split: option.splits)

lemma retry_cycle_from:
  assumes ok: "handles_ok s0"
    and typed: "trim (message s0) \<noteq> []"
    and fresh: "timers_of (msg_id (newMessage dateNow rnd s0)) s0 = Map.empty"
      "sent (msg_id (newMessage dateNow rnd s0)) s0 = []"
      "failures (msg_id (newMessage dateNow rnd s0)) s0 = 0"
    and quiet: "unanswered (msg_id (newMessage dateNow rnd s0)) evs (step (Submit dateNow rnd) s0)"
  shows "let m = newMessage dateNow rnd s0; i = msg_id m;
             s = run evs (step (Submit dateNow rnd) s0); es = sent i s
         in es \<noteq> [] \<and> length es \<le> 1 + MAX_RETRIES
            \<and> (\<forall>e \<in> set es. em_msg e = m)
            \<and> spaced (map em_time es)
            \<and> (case pendingMessages s i of
                 Some p \<Rightarrow>
                   failures i s = 0 \<and> retryCount p = length es - 1
                   \<and> (\<exists>t. timeout p = Some t
                        \<and> timers s t = Some \<lparr>tm_msg = m, tm_retry = length es - 1,
                              tm_due = em_time (last es) + RETRY_TIMEOUT\<rparr>
                        \<and> (\<forall>d. em_time (last es) + RETRY_TIMEOUT \<le> now s + d \<longrightarrow>
                             (let s' = step (TimerFire t) (step (Tick d) s)
                              in if length es \<le> MAX_RETRIES
                                 then sent i s' = es @ [\<lparr>em_time = now s + d, em_msg = m,
                                                          em_ack = ack_count s\<rparr>]
                                      \<and> pendingMessages s' i \<noteq> None
                                 else pendingMessages s' i = None
                                      \<and> emitted s' = emitted s
                                      \<and> rendered s' = rendered s
                                      \<and> console s' = console s @ [WarnNoAck i, ErrFailed i])))
               | None \<Rightarrow>
                   length es = 1 + MAX_RETRIES \<and> failures i s = 1 \<and> timers_of i s = Map.empty)"
proof -
  define m where "m = newMessage dateNow rnd s0"
  define i where "i = msg_id m"
  define s1 where "s1 = step (Submit dateNow rnd) s0"
  define s where "s = run evs s1"
  define es where "es = sent i s"
  have s1: "s1 = (sendMessageWithRetry m 0 s0)\<lparr>message := []\<rparr>"
    using typed by (simp add: s1_def m_def sendMessage_def)
  have ok1: "handles_ok s1"
    unfolding s1_def using ok by (rule handles_ok_step)
  have "retry_view_ok m (iview i (sendMessageWithRetry m 0 s0))"
    unfolding i_def using ok fresh unfolding m_def [symmetric] by (rule retry_view_start)
  then have v1: "retry_view_ok m (iview (msg_id m) s1)"
    by (simp add: s1 i_def)
  have oks: "handles_ok s" unfolding s_def using ok1 by (rule handles_ok_run)
  have v: "retry_view_ok m (iview i s)"
    unfolding s_def i_def using ok1 v1 quiet [folded m_def s1_def]
    by (rule retry_view_run)
  have main: "es \<noteq> [] \<and> length es \<le> 1 + MAX_RETRIES
            \<and> (\<forall>e \<in> set es. em_msg e = m)
            \<and> spaced (map em_time es)
            \<and> (case pendingMessages s i of
                 Some p \<Rightarrow>
                   failures i s = 0 \<and> retryCount p = length es - 1
                   \<and> (\<exists>t. timeout p = Some t
                        \<and> timers s t = Some \<lparr>tm_msg = m, tm_retry = length es - 1,
                              tm_due = em_time (last es) + RETRY_TIMEOUT\<rparr>
                        \<and> (\<forall>d. em_time (last es) + RETRY_TIMEOUT \<le> now s + d \<longrightarrow>
                             (let s' = step (TimerFire t) (step (Tick d) s)
                              in if length es \<le> MAX_RETRIES
                                 then sent i s' = es @ [\<lparr>em_time = now s + d, em_msg = m,
                                                          em_ack = ack_count s\<rparr>]
                                      \<and> pendingMessages s' i \<noteq> None
                                 else pendingMessages s' i = None
                                      \<and> emitted s' = emitted s
                                      \<and> rendered s' = rendered s
                                      \<and> console s' = console s @ [WarnNoAck i, ErrFailed i])))
               | None \<Rightarrow>
                   length es = 1 + MAX_RETRIES \<and> failures i s = 1 \<and> timers_of i s = Map.empty)"
  proof (cases "pendingMessages s i")
    case None
    from retry_view_okD_done [OF v None] None show ?thesis
      by (auto simp: es_def MAX_RETRIES_def)
  next
    case (Some p)
    note live = retry_view_okD_live [OF v Some, folded es_def]
    then obtain t where p: "p = pending_of m (length es - 1) t"
      and tms: "timers_of i s = [t \<mapsto> \<lparr>tm_msg = m, tm_retry = length es - 1,
                  tm_due = em_time (last es) + RETRY_TIMEOUT\<rparr>]"
      by blast
    have pt: "timeout p = Some t" "retryCount p = length es - 1"
      by (simp_all add: p pending_of_def)
    have armed: "timers s t = Some \<lparr>tm_msg = m, tm_retry = length es - 1,
                  tm_due = em_time (last es) + RETRY_TIMEOUT\<rparr>"
      using tms by (intro timers_of_Some [of i]) simp
    have pos: "0 < length es" using live by simp
    have progress: "let s' = step (TimerFire t) (step (Tick d) s)
         in if length es \<le> MAX_RETRIES
            then sent i s' = es @ [\<lparr>em_time = now s + d, em_msg = m, em_ack = ack_count s\<rparr>]
                 \<and> pendingMessages s' i \<noteq> None
            else pendingMessages s' i = None
                 \<and> emitted s' = emitted s
                 \<and> rendered s' = rendered s
                 \<and> console s' = console s @ [WarnNoAck i, ErrFailed i]"
      if due: "em_time (last es) + RETRY_TIMEOUT \<le> now s + d" for d
    proof -
      let ?sd = "step (Tick d) s"
      have a: "pendingMessages ?sd (msg_id m) = Some p" using Some by (simp add: i_def)
      have b: "timers ?sd t = Some \<lparr>tm_msg = m, tm_retry = length es - 1,
                  tm_due = em_time (last es) + RETRY_TIMEOUT\<rparr>"
        using armed by simp
      have c: "em_time (last es) + RETRY_TIMEOUT \<le> now ?sd" using due by simp
      note fire = fire_due [OF a pt(1) b c]
      show ?thesis
      proof (cases "length es \<le> MAX_RETRIES")
        case True
        with pos have k: "length es - 1 < MAX_RETRIES" by linarith
        have st: "step (TimerFire t) ?sd = sendMessageWithRetry m (length es - 1 + 1)
             (?sd\<lparr>timers := (timers ?sd)(t := None),
                console := console ?sd @ [WarnNoAck (msg_id m), LogRetrying (msg_id m) (length es - 1 + 1)]\<rparr>)"
          using fire k by (simp only: if_True)
        show ?thesis
          unfolding Let_def st using True
          by (simp add: sent_def sendMessageWithRetry_def Let_def es_def i_def)
      next
        case False
        then have k: "\<not> length es - 1 < MAX_RETRIES" by linarith
        have st: "step (TimerFire t) ?sd = ?sd\<lparr>timers := (timers ?sd)(t := None),
             console := console ?sd @ [WarnNoAck (msg_id m), ErrFailed (msg_id m)],
             pendingMessages := (pendingMessages ?sd)(msg_id m := None)\<rparr>"
          using fire k by (simp only: if_False)
        have "rendered ?sd = rendered s" by (simp add: rendered_def)
        then have r: "rendered (step (TimerFire t) ?sd) = rendered s"
          by (simp only: rendered_timer)
        show ?thesis
          unfolding Let_def r unfolding st using False
          by (simp add: i_def)
      qed
    qed
    from live pt armed progress Some show ?thesis
      by (auto simp: MAX_RETRIES_def)
  qed
  then show ?thesis
    unfolding Let_def es_def s_def s1_def i_def m_def .
qed

text \<open>
  C2, as the code has it. In a session, a message is submitted under an id that is
  new (no armed timer, no emission and no logged failure carries it), and in the run
  that follows no acknowledgment callback of that id is called and no submission
  produces the id again. Then at every moment the message was emitted at most
  \<open>1 + MAX_RETRIES\<close> times, always with the same content, and consecutive emissions
  are at least \<open>RETRY_TIMEOUT\<close> apart. While the entry is in the ledger no failure is
  logged and the timer the entry records is armed, due \<open>RETRY_TIMEOUT\<close> after the
  last emission; when it fires, the message is emitted again if fewer than \<open>MAX_RETRIES\<close> retries were
  made, and otherwise the entry is removed and the failure is written to the console,
  with the emissions and the rendered state unchanged. Once the entry is gone, the
  message was emitted exactly \<open>1 + MAX_RETRIES\<close> times and its failure was logged
  exactly once.
\<close>

theorem unanswered_message_retries:
  assumes "trim (message (run pre (init uid c))) \<noteq> []"
    and "timers_of (msg_id (newMessage dateNow rnd (run pre (init uid c))))
           (run pre (init uid c)) = Map.empty"
    and "sent (msg_id (newMessage dateNow rnd (run pre (init uid c))))
           (run pre (init uid c)) = []"
    and "failures (msg_id (newMessage dateNow rnd (run pre (init uid c))))
           (run pre (init uid c)) = 0"
    and "unanswered (msg_id (newMessage dateNow rnd (run pre (init uid c)))) evs
           (step (Submit dateNow rnd) (run pre (init uid c)))"
  shows "let s0 = run pre (init uid c); m = newMessage dateNow rnd s0; i = msg_id m;
             s = run evs (step (Submit dateNow rnd) s0); es = sent i s
         in es \<noteq> [] \<and> length es \<le> 1 + MAX_RETRIES
            \<and> (\<forall>e \<in> set es. em_msg e = m)
            \<and> spaced (map em_time es)
            \<and> (case pendingMessages s i of
                 Some p \<Rightarrow>
                   failures i s = 0 \<and> retryCount p = length es - 1
                   \<and> (\<exists>t. timeout p = Some t
                        \<and> timers s t = Some \<lparr>tm_msg = m, tm_retry = length es - 1,
                              tm_due = em_time (last es) + RETRY_TIMEOUT\<rparr>
                        \<and> (\<forall>d. em_time (last es) + RETRY_TIMEOUT \<le> now s + d \<longrightarrow>
                             (let s' = step (TimerFire t) (step (Tick d) s)
                              in if length es \<le> MAX_RETRIES
                                 then sent i s' = es @ [\<lparr>em_time = now s + d, em_msg = m,
                                                          em_ack = ack_count s\<rparr>]
                                      \<and> pendingMessages s' i \<noteq> None
                                 else pendingMessages s' i = None
                                      \<and> emitted s' = emitted s
                                      \<and> rendered s' = rendered s
                                      \<and> console s' = console s @ [WarnNoAck i, ErrFailed i])))
               | None \<Rightarrow>
                   length es = 1 + MAX_RETRIES \<and> failures i s = 1 \<and> timers_of i s = Map.empty)"
proof -
  have "handles_ok (run pre (init uid c))"
    by (rule handles_ok_run [OF handles_ok_init])
  note cycle = retry_cycle_from [OF this assms, unfolded Let_def]
  show ?thesis unfolding Let_def by (rule cycle)
qed

theorem unanswered_message_retries_witness:
  "map em_time (sent (msg_id hi) failed) = [0, 3000, 6000, 9000]
   \<and> length (sent (msg_id hi) failed) = 1 + MAX_RETRIES
   \<and> spaced (map em_time (sent (msg_id hi) failed))
   \<and> pendingMessages failed (msg_id hi) = None
   \<and> failures (msg_id hi) failed = 1
   \<and> timers_of (msg_id hi) failed = Map.empty
   \<and> pendingMessages retried (msg_id hi) = Some (pending_of hi 1 2)
   \<and> map em_time (sent (msg_id hi) retried) = [0, 3000]
   \<and> failures (msg_id hi) retried = 0"
proof -
  have ty: "trim (message typed) \<noteq> []"
    by (simp add: typed_eq trim_def isWhiteSpace_def js_lit_def)
  have fresh: "timers_of (msg_id (newMessage 5 (js_lit ''ab'') typed)) typed = Map.empty"
    "sent (msg_id (newMessage 5 (js_lit ''ab'') typed)) typed = []"
    "failures (msg_id (newMessage 5 (js_lit ''ab'') typed)) typed = 0"
    by (simp_all add: typed_eq timers_of_def sent_def failures_def init_def)
  have q1: "unanswered (msg_id (newMessage 5 (js_lit ''ab'') typed))
      [Tick 3000, TimerFire 1, Tick 3000, TimerFire 2, Tick 3000, TimerFire 3, Tick 3000, TimerFire 4]
      (step (Submit 5 (js_lit ''ab'')) typed)"
    and q2: "unanswered (msg_id (newMessage 5 (js_lit ''ab'') typed)) [Tick 3000, TimerFire 1]
      (step (Submit 5 (js_lit ''ab'')) typed)"
    by simp_all
  have f: "run [Tick 3000, TimerFire 1, Tick 3000, TimerFire 2, Tick 3000, TimerFire 3, Tick 3000, TimerFire 4]
      (step (Submit 5 (js_lit ''ab'')) typed) = failed"
    and r: "run [Tick 3000, TimerFire 1] (step (Submit 5 (js_lit ''ab'')) typed) = retried"
    unfolding typed_submitted by (simp_all add: failed_def exhausted_def retried_def)
  have pf: "pendingMessages failed (msg_id hi) = None"
    and pr: "pendingMessages retried (msg_id hi) = Some (pending_of hi 1 2)"
    and tf: "map em_time (sent (msg_id hi) failed) = [0, 3000, 6000, 9000]"
    and tr: "map em_time (sent (msg_id hi) retried) = [0, 3000]"
    by (simp_all add: failed_eq exhausted_eq retried_eq sent_def hi_def js_lit_def)
  note session = unanswered_message_retries
    [of "[Connect, ConfirmAge, Type (js_lit ''hi'')]" me False 5 "js_lit ''ab''", folded typed_def]
  from session [OF ty fresh q1] session [OF ty fresh q2]
  show ?thesis
    unfolding f r typed_hi Let_def by (simp add: pf pr tf tr)
qed

text \<open>
  The id has to be new. Here the same id is produced by a second submission in the
  same millisecond: the two emissions are 0 ms apart, the timer of the first
  submission cancels the timer of the second, the second text is never sent again,
  and the id is emitted five times before the entry is removed.
\<close>

lemma same_id_submitted_twice:
  "map em_time (sent (js_lit ''5-ab'') twice) = [0, 0]
   \<and> map (msg_text \<circ> em_msg) (sent (js_lit ''5-ab'') twice) = [js_lit ''hi'', js_lit ''yo'']
   \<and> map em_time (sent (js_lit ''5-ab'')
        (run [Tick 3000, TimerFire 1, Tick 3000, TimerFire 3, Tick 3000, TimerFire 4,
              Tick 3000, TimerFire 5] twice)) = [0, 0, 3000, 6000, 9000]
   \<and> map (msg_text \<circ> em_msg) (sent (js_lit ''5-ab'')
        (run [Tick 3000, TimerFire 1, Tick 3000, TimerFire 3, Tick 3000, TimerFire 4,
              Tick 3000, TimerFire 5] twice))
       = [js_lit ''hi'', js_lit ''yo'', js_lit ''hi'', js_lit ''hi'', js_lit ''hi'']
   \<and> timers (run [Tick 3000, TimerFire 1] twice) 2 = None
   \<and> pendingMessages (run [Tick 3000, TimerFire 1, Tick 3000, TimerFire 3, Tick 3000,
        TimerFire 4, Tick 3000, TimerFire 5] twice) (js_lit ''5-ab'') = None"
  by (simp add: twice_def submitted_eq eval_defs sent_def hi_def Suc_Suc_0)


text \<open>
  C2 as claimed fails in its last part: when the retries are exhausted the entry
  leaves the ledger and two console lines are written, and that is all. The rendered
  state and the emissions are what they were before the last timer fired.
\<close>

theorem terminal_failure_only_logged:
  "pendingMessages exhausted (js_lit ''5-ab'') = Some (pending_of hi 3 4)
   \<and> failed = run [Tick 3000, TimerFire 4] exhausted
   \<and> pendingMessages failed (js_lit ''5-ab'') = None
   \<and> rendered failed = rendered exhausted
   \<and> emitted failed = emitted exhausted
   \<and> map em_time (emitted failed) = [0, 3000, 6000, 9000]
   \<and> console failed = console exhausted @ [WarnNoAck (js_lit ''5-ab''), ErrFailed (js_lit ''5-ab'')]
   \<and> failed = exhausted \<lparr> pendingMessages := Map.empty, timers := Map.empty,
         console := console exhausted @ [WarnNoAck (js_lit ''5-ab''), ErrFailed (js_lit ''5-ab'')],
         now := 12000 \<rparr>"
proof -
  have r: "failed = run [Tick 3000, TimerFire 4] exhausted" by (simp add: failed_def)
  have p: "pendingMessages exhausted (js_lit ''5-ab'') = Some (pending_of hi 3 4)"
    and t: "map em_time (emitted exhausted) = [0, 3000, 6000, 9000]"
    by (simp_all add: exhausted_eq)
  have f: "pendingMessages failed (js_lit ''5-ab'') = None"
    "rendered failed = rendered exhausted" "emitted failed = emitted exhausted"
    "console failed = console exhausted @ [WarnNoAck (js_lit ''5-ab''), ErrFailed (js_lit ''5-ab'')]"
    by (simp_all add: failed_eq rendered_def)
  from r p t f failed_eq show ?thesis by (simp only: simp_thms)
qed

section \<open>Acknowledgments that arrive late\<close>

text \<open>
  An acknowledgment for a message id that is no longer in the ledger: a positive one,
  or a negative one whose callback holds an exhausted retry count, leaves the ledger,
  the timers and the emissions alone; a negative one with retries left sends the
  message again and puts the entry back.
\<close>

lemma late_ack_effect:
  assumes "pendingMessages s (msg_id m) = None" "acks s k = Some (m, rc)"
  shows "(ack_success resp \<or> MAX_RETRIES \<le> rc \<longrightarrow>
            pendingMessages (step (Ack k resp) s) = pendingMessages s
            \<and> timers (step (Ack k resp) s) = timers s
            \<and> emitted (step (Ack k resp) s) = emitted s)
       \<and> (\<not> ack_success resp \<and> rc < MAX_RETRIES \<longrightarrow>
            pendingMessages (step (Ack k resp) s) (msg_id m)
              = Some (pending_of m (rc + 1) (timer_count s + 1))
            \<and> timers (step (Ack k resp) s) (timer_count s + 1)
              = Some \<lparr>tm_msg = m, tm_retry = rc + 1, tm_due = now s + RETRY_TIMEOUT\<rparr>
            \<and> emitted (step (Ack k resp) s)
              = emitted s @ [\<lparr>em_time = now s, em_msg = m, em_ack = ack_count s\<rparr>])"
  using assms
  by (auto simp: ackCallback_def handleMessageFailure_def sendMessageWithRetry_def
      console_log_def Let_def)

text \<open>
  C3 at a failing input: the message has failed for good and its entry is gone; then the
  relay answers the first emission negatively (or with no argument). The callback calls
  \<open>handleMessageFailure\<close> with its own retry count 0, which sends the message a fifth
  time, arms a timer and puts the entry back with retry count 1.
\<close>

theorem late_negative_ack_resends:
  "pendingMessages failed (js_lit ''5-ab'') = None
   \<and> timers failed = Map.empty
   \<and> map em_time (emitted failed) = [0, 3000, 6000, 9000]
   \<and> pendingMessages (step (Ack 0 (Response False None)) failed) (js_lit ''5-ab'')
       = Some (pending_of hi 1 5)
   \<and> timers (step (Ack 0 (Response False None)) failed)
       = [5 \<mapsto> \<lparr>tm_msg = hi, tm_retry = 1, tm_due = 15000\<rparr>]
   \<and> map em_time (emitted (step (Ack 0 (Response False None)) failed))
       = [0, 3000, 6000, 9000, 12000]
   \<and> pendingMessages (step (Ack 0 NoResponse) failed) (js_lit ''5-ab'')
       = Some (pending_of hi 1 5)"
  by (simp add: failed_eq exhausted_eq eval_defs hi_def)

section \<open>After a positive acknowledgment\<close>

text \<open>
  Once the entry of a message id is out of the ledger, it stays out and the id is not
  emitted again as long as no negative acknowledgment for that id arrives and the id
  is not submitted anew: the timers left armed do nothing.
\<close>

lemma sent_fields [simp]:
  "sent i (s\<lparr>message := a\<rparr>) = sent i s"
  "sent i (s\<lparr>messages := b\<rparr>) = sent i s"
  "sent i (s\<lparr>userCount := c\<rparr>) = sent i s"
  "sent i (s\<lparr>isVerified := d\<rparr>) = sent i s"
  "sent i (s\<lparr>isUnderage := d\<rparr>) = sent i s"
  "sent i (s\<lparr>isConnected := d\<rparr>) = sent i s"
  "sent i (s\<lparr>receivedMessageIds := f\<rparr>) = sent i s"
  "sent i (s\<lparr>pendingMessages := p\<rparr>) = sent i s"
  "sent i (s\<lparr>timers := ts\<rparr>) = sent i s"
  "sent i (s\<lparr>acks := g\<rparr>) = sent i s"
  "sent i (s\<lparr>console := l\<rparr>) = sent i s"
  "sent i (s\<lparr>now := h\<rparr>) = sent i s"
  by (simp_all add: sent_def)

lemma other_sendMessageWithRetry:
  "msg_id m \<noteq> i \<Longrightarrow>
     pendingMessages (sendMessageWithRetry m rc s) i = pendingMessages s i
     \<and> sent i (sendMessageWithRetry m rc s) = sent i s"
  by (simp add: sendMessageWithRetry_def sent_def Let_def)

lemma other_handleMessageFailure:
  "msg_id m \<noteq> i \<Longrightarrow>
     pendingMessages (handleMessageFailure m rc s) i = pendingMessages s i
     \<and> sent i (handleMessageFailure m rc s) = sent i s"
  by (simp add: handleMessageFailure_def other_sendMessageWithRetry clearTimeout_def
      console_log_def Let_def split: option.splits)

lemma removed_entry_step:
  assumes "pendingMessages s i = None" "benign i e s"
  shows "pendingMessages (step e s) i = None \<and> sent i (step e s) = sent i s"
proof (cases e)
  case (Ack k resp)
  show ?thesis
  proof (cases "acks s k")
    case None
    with Ack assms show ?thesis by simp
  next
    case (Some a)
    obtain m rc where a: "a = (m, rc)" by (cases a)
    show ?thesis
    proof (cases "ack_success resp")
      case True
      with Ack Some a assms show ?thesis
        by (simp add: ackCallback_def console_log_def Let_def)
    next
      case False
      with Ack Some a assms have "msg_id m \<noteq> i" by simp
      with Ack Some a assms False show ?thesis
        by (simp add: ackCallback_def other_handleMessageFailure console_log_def Let_def)
    qed
  qed
next
  case (TimerFire t)
  show ?thesis
  proof (cases "timers s t")
    case None
    with TimerFire assms show ?thesis by simp
  next
    case (Some tm)
    show ?thesis
    proof (cases "msg_id (tm_msg tm) = i")
      case True
      with TimerFire Some assms show ?thesis
        by (simp add: timeoutCallback_def)
    next
      case False
      with TimerFire Some assms show ?thesis
        by (simp add: timeoutCallback_def other_handleMessageFailure console_log_def)
    qed
  qed
next
  case (Submit d r)
  with assms show ?thesis
    by (auto simp: sendMessage_def other_sendMessageWithRetry)
next
  case (SyncMessages b)
  with assms show ?thesis
    by (simp add: handleSyncMessages_def console_log_def Let_def split: prod.splits)
next
  case (ReceiveMessage d)
  with assms show ?thesis
    by (simp add: handleReceiveMessage_def console_log_def)
qed (use assms in \<open>simp_all add: socket_defs console_log_def\<close>)

lemma removed_entry_stays_removed:
  "pendingMessages s i = None \<Longrightarrow> all_benign i evs s \<Longrightarrow>
     pendingMessages (run evs s) i = None \<and> sent i (run evs s) = sent i s"
proof (induction evs arbitrary: s)
  case Nil
  then show ?case by simp
next
  case (Cons e evs)
  from Cons.prems have "pendingMessages (step e s) i = None" "sent i (step e s) = sent i s"
    "all_benign i evs (step e s)"
    using removed_entry_step [of s i e] by simp_all
  with Cons.IH [of "step e s"] show ?case by simp
qed

text \<open>
  C6 at a failing input: the second emission is acknowledged positively while the
  entry is pending, and the entry is removed; a negative answer to the first emission
  then sends the same message id a third time and puts the entry back.
\<close>

theorem acknowledged_message_sent_again:
  "pendingMessages retried (js_lit ''5-ab'') = Some (pending_of hi 1 2)
   \<and> pendingMessages confirmed (js_lit ''5-ab'') = None
   \<and> map em_time (emitted confirmed) = [0, 3000]
   \<and> map (msg_id \<circ> em_msg) (emitted (run [Tick 500, Ack 0 (Response False None)] confirmed))
       = [js_lit ''5-ab'', js_lit ''5-ab'', js_lit ''5-ab'']
   \<and> map em_time (emitted (run [Tick 500, Ack 0 (Response False None)] confirmed))
       = [0, 3000, 3500]
   \<and> pendingMessages (run [Tick 500, Ack 0 (Response False None)] confirmed) (js_lit ''5-ab'')
       = Some (pending_of hi 1 3)"
  by (simp add: confirmed_def retried_eq eval_defs hi_def)

section \<open>Timers of removed entries\<close>

text \<open>
  C5, as the code has it: giving up after the last retry cancels the timer recorded in
  the entry (a positive handle) and removes the entry. A positive acknowledgment
  removes the entry and leaves every timer armed; when such a timer fires with its
  message id no longer in the ledger, the callback does nothing.
\<close>

theorem timer_cancelled_on_failure_only:
  "(MAX_RETRIES \<le> rc \<and> pendingMessages s (msg_id m) = Some p \<and> timeout p = Some t \<longrightarrow>
      pendingMessages (handleMessageFailure m rc s) (msg_id m) = None
      \<and> timers (handleMessageFailure m rc s) t = (if t = 0 then timers s t else None))
   \<and> (acks s k = Some (m, rc) \<longrightarrow>
      pendingMessages (step (Ack k (Response True err)) s) (msg_id m) = None
      \<and> timers (step (Ack k (Response True err)) s) = timers s)
   \<and> (timers s t = Some tm \<and> tm_due tm \<le> now s
       \<and> pendingMessages s (msg_id (tm_msg tm)) = None \<longrightarrow>
      step (TimerFire t) s = s\<lparr>timers := (timers s)(t := None)\<rparr>)"
  by (simp add: handleMessageFailure_def ackCallback_def timeoutCallback_def clearTimeout_def
      console_log_def)

theorem timer_cancelled_on_failure_only_witness:
  "pendingMessages exhausted (msg_id hi) = Some (pending_of hi 3 4)
   \<and> timers exhausted 4 = Some \<lparr>tm_msg = hi, tm_retry = 3, tm_due = 12000\<rparr>
   \<and> pendingMessages (handleMessageFailure hi 3 exhausted) (msg_id hi) = None
   \<and> timers (handleMessageFailure hi 3 exhausted) 4 = None
   \<and> acks submitted 0 = Some (hi, 0)
   \<and> timers (step (Ack 0 (Response True None)) submitted) = timers submitted
   \<and> step (TimerFire 1) (step (Tick 3000) (step (Ack 0 (Response True None)) submitted))
       = (step (Tick 3000) (step (Ack 0 (Response True None)) submitted)) \<lparr>timers := Map.empty\<rparr>"
proof -
  let ?s = "step (Tick 3000) (step (Ack 0 (Response True None)) submitted)"
  have a: "pendingMessages exhausted (msg_id hi) = Some (pending_of hi 3 4)"
    "timeout (pending_of hi 3 4) = Some 4"
    "timers exhausted 4 = Some \<lparr>tm_msg = hi, tm_retry = 3, tm_due = 12000\<rparr>"
    "acks submitted 0 = Some (hi, 0)"
    by (simp_all add: exhausted_eq submitted_eq hi_def js_lit_def pending_of_def)
  have b: "timers ?s 1 = Some \<lparr>tm_msg = hi, tm_retry = 0, tm_due = 3000\<rparr>"
    "now ?s = 3000" "pendingMessages ?s (msg_id hi) = None" "timers ?s = [1 \<mapsto> \<lparr>tm_msg = hi, tm_retry = 0, tm_due = 3000\<rparr>]"
    by (simp_all add: submitted_eq ackCallback_def console_log_def hi_def js_lit_def)
  from timer_cancelled_on_failure_only [of 3 exhausted hi "pending_of hi 3 4" 4 0 None "\<lparr>tm_msg = hi, tm_retry = 3, tm_due = 12000\<rparr>"]
       timer_cancelled_on_failure_only [of 0 submitted hi "pending_of hi 3 4" 4 0 None "\<lparr>tm_msg = hi, tm_retry = 3, tm_due = 12000\<rparr>"]
       timer_cancelled_on_failure_only [of 0 ?s hi "pending_of hi 3 4" 1 0 None "\<lparr>tm_msg = hi, tm_retry = 0, tm_due = 3000\<rparr>"]
  show ?thesis
    using a b by (simp add: MAX_RETRIES_def)
qed

text \<open>
  C5 as claimed fails on the success path: after the acknowledgment removed the entry,
  its timer is still armed, and it fires once its delay has passed.
\<close>

theorem success_leaves_timer_armed:
  "pendingMessages submitted (js_lit ''5-ab'') = Some (pending_of hi 0 1)
   \<and> pendingMessages (step (Ack 0 (Response True None)) submitted) (js_lit ''5-ab'') = None
   \<and> timers (step (Ack 0 (Response True None)) submitted) 1
       = Some \<lparr>tm_msg = hi, tm_retry = 0, tm_due = 3000\<rparr>
   \<and> timers (run [Ack 0 (Response True None), Tick 3000] submitted) 1
       = Some \<lparr>tm_msg = hi, tm_retry = 0, tm_due = 3000\<rparr>
   \<and> timers (run [Ack 0 (Response True None), Tick 3000, TimerFire 1] submitted) 1 = None"
  by (simp add: submitted_eq ackCallback_def timeoutCallback_def console_log_def hi_def js_lit_def)

end
